theory Spec2Isabelle
  imports Complex_Main
begin

section \<open>Gates and circuits\<close>

text \<open>
  The notebook builds circuits by calling PennyLane operations, which queue one gate
  each on the tape of the enclosing circuit. A builder function is modelled by the
  list of gates it queues, in order. Wires are the integers the notebook uses as wire
  labels; a register is a list of wires, most significant wire first (the order
  \<open>binary_to_integer\<close> reads them in).

  Rotation angles are the real numbers the floating point expressions of the source
  stand for (\<open>k * np.pi / 2**j\<close>).
\<close>

type_synonym wire = nat

datatype gate =
    RZ real wire
  | PauliX wire
  | CNOT wire wire
  | SWAP wire wire
  | QFT "wire list"
  | QFT_adj "wire list"
  | Ctrl gate "wire list"

datatype error = WireConflict | IndexError | ValueError | ZeroDivisionError

datatype message =
    Not_enough_ancillary_qubits
  | FALLO_no_existe_el_inverso int int

text \<open>
  \<open>binary_to_integer\<close>: the dot product of the bit vector with the powers of two,
  reversed so that the first entry has the largest weight.
\<close>

definition binary_to_integer :: "int list \<Rightarrow> int" where
  "binary_to_integer vOutput =
     (let vPows = rev (map (\<lambda>i. 2 ^ i) [0..<length vOutput])
      in sum_list (map2 (*) vOutput vPows))"

subsection \<open>The circuit algebra\<close>

text \<open>
  Modelled from the spec: \<open>qml.adjoint\<close> and \<open>qml.ctrl\<close> are PennyLane's, not code of
  the notebook. The spec (sections 3 and 4.1) fixes what they do to a circuit:
  \<open>adjoint\<close> reverses the gate order and inverts each gate; \<open>controlled\<close> wraps every
  gate with the same extra controls, keeping the order, and fails with
  \<open>WireConflict\<close> when a control is a wire the circuit uses.
\<close>

fun invert :: "gate \<Rightarrow> gate" where
  "invert (RZ theta w) = RZ (- theta) w"
| "invert (PauliX w) = PauliX w"
| "invert (CNOT c t) = CNOT c t"
| "invert (SWAP a b) = SWAP a b"
| "invert (QFT ws) = QFT_adj ws"
| "invert (QFT_adj ws) = QFT ws"
| "invert (Ctrl g cs) = Ctrl (invert g) cs"

definition adjoint :: "gate list \<Rightarrow> gate list" where
  "adjoint c = rev (map invert c)"

fun gate_wires :: "gate \<Rightarrow> wire list" where
  "gate_wires (RZ theta w) = [w]"
| "gate_wires (PauliX w) = [w]"
| "gate_wires (CNOT c t) = [c, t]"
| "gate_wires (SWAP a b) = [a, b]"
| "gate_wires (QFT ws) = ws"
| "gate_wires (QFT_adj ws) = ws"
| "gate_wires (Ctrl g cs) = cs @ gate_wires g"

definition circuit_wires :: "gate list \<Rightarrow> wire list" where
  "circuit_wires c = concat (map gate_wires c)"

definition add_controls :: "gate \<Rightarrow> wire list \<Rightarrow> error + gate" where
  "add_controls g controls =
     (if list_ex (\<lambda>c. c \<in> set (gate_wires g)) controls then Inl WireConflict
      else Inr (Ctrl g controls))"

fun controlled :: "gate list \<Rightarrow> wire list \<Rightarrow> error + gate list" where
  "controlled [] controls = Inr []"
| "controlled (g # gs) controls =
     (case add_controls g controls of
        Inl e \<Rightarrow> Inl e
      | Inr g' \<Rightarrow>
          (case controlled gs controls of
             Inl e \<Rightarrow> Inl e
           | Inr gs' \<Rightarrow> Inr (g' # gs')))"

section \<open>The builders of the notebook\<close>

text \<open>\<open>sum_k\<close>: one \<open>RZ\<close> per wire, wire \<open>j\<close> turned by \<open>k * pi / 2 ^ j\<close>.\<close>

definition sum_k :: "int \<Rightarrow> wire list \<Rightarrow> gate list" where
  "sum_k k wires = map (\<lambda>j. RZ (of_int k * pi / 2 ^ j) (wires ! j)) [0..<length wires]"

text \<open>
  \<open>add_in_k_N\<close>. Reading \<open>wires_a[0]\<close> or \<open>wires_aux[0]\<close> of an empty list raises
  \<open>IndexError\<close>; the controlled \<open>sum_k\<close> is the one place where the circuit algebra
  can refuse the wires.
\<close>

definition add_in_k_N :: "int \<Rightarrow> int \<Rightarrow> wire list \<Rightarrow> wire list \<Rightarrow> bool \<Rightarrow> error + gate list" where
  "add_in_k_N k N wires_a wires_aux is_in_standard_basis =
     (if wires_a = [] \<or> wires_aux = [] then Inl IndexError
      else
        (case controlled (sum_k N wires_a) [wires_aux ! 0] of
           Inl e \<Rightarrow> Inl e
         | Inr ctrl_sum \<Rightarrow>
             Inr ((if is_in_standard_basis then [QFT wires_a] else [])
               @ sum_k k wires_a
               @ adjoint (sum_k N wires_a)
               @ [QFT_adj wires_a, CNOT (wires_a ! 0) (wires_aux ! 0), QFT wires_a]
               @ ctrl_sum
               @ adjoint (sum_k k wires_a)
               @ [QFT_adj wires_a, PauliX (wires_a ! 0), CNOT (wires_a ! 0) (wires_aux ! 0),
                  PauliX (wires_a ! 0), QFT wires_a]
               @ sum_k k wires_a
               @ (if is_in_standard_basis then [QFT_adj wires_a] else []))))"

text \<open>
  The loop shared by \<open>add_in_N\<close> and \<open>mult_out_k_N\<close>: for each index \<open>i\<close> of
  \<open>wires_a\<close>, in order, \<open>qml.ctrl(add_in_k_N, control=wires_a[i])(value, N, new_wires_b,
  aux, False)\<close>, where \<open>value\<close> is \<open>weight i % N\<close>. The two callers differ in the weight
  only. \<open>%\<close> by zero raises \<open>ZeroDivisionError\<close>.
\<close>

fun ctrl_add_loop ::
  "(nat \<Rightarrow> int) \<Rightarrow> int \<Rightarrow> wire list \<Rightarrow> wire list \<Rightarrow> wire list \<Rightarrow> nat list \<Rightarrow> error + gate list" where
  "ctrl_add_loop weight N wires_a new_wires_b aux [] = Inr []"
| "ctrl_add_loop weight N wires_a new_wires_b aux (i # is) =
     (if N = 0 then Inl ZeroDivisionError
      else
        (case add_in_k_N (weight i mod N) N new_wires_b aux False of
           Inl e \<Rightarrow> Inl e
         | Inr c \<Rightarrow>
             (case controlled c [wires_a ! i] of
                Inl e \<Rightarrow> Inl e
              | Inr cc \<Rightarrow>
                  (case ctrl_add_loop weight N wires_a new_wires_b aux is of
                     Inl e \<Rightarrow> Inl e
                   | Inr rest \<Rightarrow> Inr (cc @ rest)))))"

definition add_in_N :: "int \<Rightarrow> wire list \<Rightarrow> wire list \<Rightarrow> wire list \<Rightarrow> wire list \<Rightarrow> error + gate list" where
  "add_in_N N wires_a wires_b aux1 aux2 =
     (let new_wires_b = aux1 @ wires_b in
      case ctrl_add_loop (\<lambda>i. 2 ^ (length wires_a - 1 - i)) N wires_a new_wires_b aux2
             [0..<length wires_a] of
        Inl e \<Rightarrow> Inl e
      | Inr body \<Rightarrow> Inr ([QFT new_wires_b] @ body @ [QFT_adj new_wires_b]))"

text \<open>
  \<open>mult_out_k_N\<close> and \<open>mult_in_k_N\<close> print a message and return when a check fails:
  the result is then the empty circuit together with the message.
\<close>

definition mult_out_k_N ::
  "int \<Rightarrow> int \<Rightarrow> wire list \<Rightarrow> wire list \<Rightarrow> wire list \<Rightarrow> error + (message list \<times> gate list)" where
  "mult_out_k_N k N wires_a wires_b wires_aux =
     (if length wires_aux < 2 then Inr ([Not_enough_ancillary_qubits], [])
      else
        (let new_wires_b = [wires_aux ! 0] @ wires_b in
         case ctrl_add_loop (\<lambda>i. k * 2 ^ (length wires_a - 1 - i)) N wires_a new_wires_b
                [wires_aux ! 1] [0..<length wires_a] of
           Inl e \<Rightarrow> Inl e
         | Inr body \<Rightarrow> Inr ([], [QFT new_wires_b] @ body @ [QFT_adj new_wires_b])))"

text \<open>
  Python's three-argument \<open>pow\<close> (CPython 3.9): a zero modulus raises \<open>ValueError\<close>;
  a negative exponent takes the inverse of the base modulo the modulus, and raises
  \<open>ValueError\<close> when there is none; the result has the sign of the modulus.
\<close>

definition pow3 :: "int \<Rightarrow> int \<Rightarrow> int \<Rightarrow> error + int" where
  "pow3 b e m =
     (if m = 0 then Inl ValueError
      else if 0 \<le> e then Inr (b ^ nat e mod m)
      else if \<bar>m\<bar> = 1 then Inr 0
      else
        (case find (\<lambda>x. (b * x) mod \<bar>m\<bar> = 1) [0..\<bar>m\<bar> - 1] of
           None \<Rightarrow> Inl ValueError
         | Some y \<Rightarrow> Inr (y ^ nat (- e) mod m)))"

definition mult_in_k_N ::
  "int \<Rightarrow> int \<Rightarrow> wire list \<Rightarrow> wire list \<Rightarrow> wire list \<Rightarrow> error + (message list \<times> gate list)" where
  "mult_in_k_N k N wires_a wires_support wires_aux =
     (if length wires_aux < 2 \<or> \<not> (length wires_a = length wires_support)
      then Inr ([Not_enough_ancillary_qubits], [])
      else
        (case pow3 k (N - 2) N of
           Inl e \<Rightarrow> Inl e
         | Inr inv_k \<Rightarrow>
             if inv_k * k mod N \<noteq> 1 then Inr ([FALLO_no_existe_el_inverso k N], [])
             else
               (case mult_out_k_N k N wires_a wires_support wires_aux of
                  Inl e \<Rightarrow> Inl e
                | Inr (msgs1, step1) \<Rightarrow>
                    (case mult_out_k_N (N - inv_k) N wires_a wires_support wires_aux of
                       Inl e \<Rightarrow> Inl e
                     | Inr (msgs3, step3) \<Rightarrow>
                         Inr (msgs1 @ msgs3,
                              step1
                              @ map (\<lambda>i. SWAP (wires_a ! i) (wires_support ! i)) [0..<length wires_a]
                              @ step3)))))"

text \<open>
  \<open>Exp_a_N\<close>: the flip of the last wire of \<open>wires_res\<close>, then one controlled
  \<open>mult_in_k_N\<close> per wire of \<open>wires_x\<close>. What \<open>mult_in_k_N\<close> prints is printed while
  \<open>qml.ctrl\<close> records it.
\<close>

fun Exp_loop ::
  "int \<Rightarrow> int \<Rightarrow> wire list \<Rightarrow> wire list \<Rightarrow> wire list \<Rightarrow> wire list \<Rightarrow> nat list
     \<Rightarrow> error + (message list \<times> gate list)" where
  "Exp_loop a N wires_x wires_res wires_support wires_aux [] = Inr ([], [])"
| "Exp_loop a N wires_x wires_res wires_support wires_aux (i # is) =
     (let n = length wires_x; value = a ^ (2 ^ (n - i - 1)) in
      case mult_in_k_N value N wires_res wires_support wires_aux of
        Inl e \<Rightarrow> Inl e
      | Inr (msgs, c) \<Rightarrow>
          (case controlled c [wires_x ! i] of
             Inl e \<Rightarrow> Inl e
           | Inr cc \<Rightarrow>
               (case Exp_loop a N wires_x wires_res wires_support wires_aux is of
                  Inl e \<Rightarrow> Inl e
                | Inr (msgs', rest) \<Rightarrow> Inr (msgs @ msgs', cc @ rest))))"

definition Exp_a_N ::
  "int \<Rightarrow> int \<Rightarrow> wire list \<Rightarrow> wire list \<Rightarrow> wire list \<Rightarrow> wire list
     \<Rightarrow> error + (message list \<times> gate list)" where
  "Exp_a_N a N wires_x wires_res wires_support wires_aux =
     (if wires_res = [] then Inl IndexError
      else
        (case Exp_loop a N wires_x wires_res wires_support wires_aux [0..<length wires_x] of
           Inl e \<Rightarrow> Inl e
         | Inr (msgs, body) \<Rightarrow>
             Inr (msgs, PauliX (wires_res ! (length wires_res - 1)) # body)))"

section \<open>Executing a circuit\<close>

text \<open>
  Modelled from the spec: the executor (PennyLane's \<open>default.qubit\<close> state-vector
  simulator) is an external collaborator, not code of the notebook. A state gives every
  assignment of bits to the wires its amplitude, and the gates act on it by their
  matrices in exact arithmetic: \<open>RZ(phi) = diag(exp(-i phi/2), exp(i phi/2))\<close>;
  \<open>QFT|x> = 2^(-n/2) * sum_y exp(2 pi i x y / 2^n) |y>\<close>, the first wire the most
  significant; a controlled gate acts where all its controls are set.
\<close>

type_synonym bits = "wire \<Rightarrow> bool"

type_synonym state = "bits \<Rightarrow> complex"

definition ket :: "bits \<Rightarrow> state" where
  "ket b = (\<lambda>b'. if b' = b then 1 else 0)"

definition scale :: "complex \<Rightarrow> state \<Rightarrow> state" where
  "scale z psi = (\<lambda>b. z * psi b)"

text \<open>The integer a register holds, read as the notebook reads a sample.\<close>

definition reg_value :: "wire list \<Rightarrow> bits \<Rightarrow> nat" where
  "reg_value ws b = nat (binary_to_integer (map (\<lambda>w. if b w then 1 else 0) ws))"

text \<open>\<open>set_reg ws x b\<close>: the wires \<open>ws\<close> hold \<open>x\<close> in binary, the other wires are as in \<open>b\<close>
  (\<open>qml.BasisEmbedding(x, wires=ws)\<close> on the all-zero state is \<open>set_reg ws x (\<lambda>w. False)\<close>).\<close>

fun set_reg :: "wire list \<Rightarrow> nat \<Rightarrow> bits \<Rightarrow> bits" where
  "set_reg [] x b = b"
| "set_reg (w # ws) x b = (set_reg ws x b)(w := odd (x div 2 ^ length ws))"

fun apply_gate :: "gate \<Rightarrow> state \<Rightarrow> state" where
  "apply_gate (RZ theta w) psi =
     (\<lambda>b. (if b w then cis (theta / 2) else cis (- theta / 2)) * psi b)"
| "apply_gate (PauliX w) psi = (\<lambda>b. psi (b(w := \<not> b w)))"
| "apply_gate (CNOT c t) psi = (\<lambda>b. psi (if b c then b(t := \<not> b t) else b))"
| "apply_gate (SWAP x y) psi = (\<lambda>b. psi (b(x := b y, y := b x)))"
| "apply_gate (QFT ws) psi =
     (\<lambda>b. (\<Sum>x<2 ^ length ws.
              cis (2 * pi * real x * real (reg_value ws b) / 2 ^ length ws) * psi (set_reg ws x b))
          / sqrt (2 ^ length ws))"
| "apply_gate (QFT_adj ws) psi =
     (\<lambda>b. (\<Sum>x<2 ^ length ws.
              cis (- (2 * pi * real x * real (reg_value ws b) / 2 ^ length ws)) * psi (set_reg ws x b))
          / sqrt (2 ^ length ws))"
| "apply_gate (Ctrl g cs) psi =
     (\<lambda>b. if list_all b cs
          then apply_gate g (\<lambda>b'. if list_all b' cs then psi b' else 0) b
          else psi b)"

definition run :: "gate list \<Rightarrow> state \<Rightarrow> state" where
  "run c psi = fold apply_gate c psi"

text \<open>A state yields the basis state \<open>b\<close> when a measurement gives \<open>b\<close> with probability 1:
  it is \<open>ket b\<close> up to a global phase.\<close>

definition yields :: "state \<Rightarrow> bits \<Rightarrow> bool" where
  "yields psi b \<longleftrightarrow> cmod (psi b) = 1 \<and> (\<forall>b'. b' \<noteq> b \<longrightarrow> psi b' = 0)"

section \<open>Auxiliary definitions for the proofs\<close>

text \<open>The gates of a builder's result; none when it raised.\<close>

definition gates_of :: "error + (message list \<times> gate list) \<Rightarrow> gate list" where
  "gates_of r = (case r of Inl e \<Rightarrow> [] | Inr (msgs, gs) \<Rightarrow> gs)"

text \<open>The integer a register holds when \<open>w\<close> is its only wire set: the weight of \<open>w\<close> in
  the register, by \<open>binary_to_integer\<close>.\<close>

definition place_value :: "wire list \<Rightarrow> wire \<Rightarrow> int" where
  "place_value ws w = binary_to_integer (map (\<lambda>v. if v = w then 1 else 0) ws)"

text \<open>The gates of \<open>add_in_k_N\<close> between the two optional Fourier transforms, when the
  controlled \<open>sum_k\<close> is accepted.\<close>

definition adder_core :: "int \<Rightarrow> int \<Rightarrow> wire list \<Rightarrow> wire \<Rightarrow> gate list" where
  "adder_core k N ws aux =
     sum_k k ws @ adjoint (sum_k N ws)
     @ [QFT_adj ws, CNOT (ws ! 0) aux, QFT ws]
     @ map (\<lambda>g. Ctrl g [aux]) (sum_k N ws)
     @ adjoint (sum_k k ws)
     @ [QFT_adj ws, PauliX (ws ! 0), CNOT (ws ! 0) aux, PauliX (ws ! 0), QFT ws]
     @ sum_k k ws"

text \<open>Two basis states that agree on every wire outside \<open>ws\<close>.\<close>

definition same_off :: "wire list \<Rightarrow> bits \<Rightarrow> bits \<Rightarrow> bool" where
  "same_off ws b b' \<longleftrightarrow> (\<forall>w. w \<notin> set ws \<longrightarrow> b' w = b w)"

text \<open>The Fourier state of the integer \<open>x\<close> on the register \<open>ws\<close>, the other wires as in
  \<open>b\<close>: what \<open>QFT\<close> makes of the basis state whose register holds \<open>x\<close>.\<close>

definition fstate :: "wire list \<Rightarrow> int \<Rightarrow> bits \<Rightarrow> state" where
  "fstate ws x b =
     (\<lambda>b'. if same_off ws b b'
           then cis (2 * pi * of_int x * real (reg_value ws b') / 2 ^ length ws) / sqrt (2 ^ length ws)
           else 0)"

text \<open>The global phase \<open>sum_k k\<close> leaves behind on \<open>n\<close> wires.\<close>

definition gphase :: "int \<Rightarrow> nat \<Rightarrow> real" where
  "gphase k n = - (\<Sum>j<n. of_int k * pi / 2 ^ Suc j)"

text \<open>A predicate on basis states that no change of the wires \<open>ws\<close> affects.\<close>

definition local_pred :: "wire list \<Rightarrow> (bits \<Rightarrow> bool) \<Rightarrow> bool" where
  "local_pred ws P \<longleftrightarrow> (\<forall>b b'. (\<forall>w. w \<notin> set ws \<longrightarrow> b w = b' w) \<longrightarrow> P b = P b')"

text \<open>A state with no amplitude outside the basis states that satisfy \<open>P\<close>.\<close>

definition vanishes_off :: "(bits \<Rightarrow> bool) \<Rightarrow> state \<Rightarrow> bool" where
  "vanishes_off P psi \<longleftrightarrow> (\<forall>b. \<not> P b \<longrightarrow> psi b = 0)"

text \<open>A state in which the wire \<open>q\<close> has the value \<open>v\<close> in every basis state it contains.\<close>

definition definite :: "wire \<Rightarrow> bool \<Rightarrow> state \<Rightarrow> bool" where
  "definite q v psi \<longleftrightarrow> vanishes_off (\<lambda>b. b q = v) psi"

text \<open>Two states that differ by a global phase only.\<close>

definition phase_eq :: "state \<Rightarrow> state \<Rightarrow> bool" where
  "phase_eq psi phi \<longleftrightarrow> (\<exists>z. cmod z = 1 \<and> psi = scale z phi)"

text \<open>
  The arithmetic of \<open>add_in_k_N\<close> on a register of \<open>n\<close> wires that holds \<open>x\<close>, with the ancilla
  at \<open>c\<close>: the register after adding \<open>k\<close> and subtracting \<open>N\<close> (\<open>adder_v1\<close>), the ancilla
  after the copy of the top wire (\<open>adder_c1\<close>), the register after the conditional
  re-addition of \<open>N\<close> (\<open>adder_v2\<close>, the final value), the register while \<open>k\<close> is
  subtracted again (\<open>adder_v3\<close>), and the ancilla at the end (\<open>adder_c2\<close>). \<open>msb n v\<close>
  is the top bit of \<open>v\<close> on \<open>n\<close> wires.
\<close>

definition msb :: "nat \<Rightarrow> int \<Rightarrow> bool" where
  "msb n v \<longleftrightarrow> 2 ^ (n - 1) \<le> v"

definition adder_v1 :: "int \<Rightarrow> int \<Rightarrow> nat \<Rightarrow> int \<Rightarrow> int" where
  "adder_v1 k N n x = (x + k - N) mod 2 ^ n"

definition adder_c1 :: "int \<Rightarrow> int \<Rightarrow> nat \<Rightarrow> int \<Rightarrow> bool \<Rightarrow> bool" where
  "adder_c1 k N n x c = (c \<noteq> msb n (adder_v1 k N n x))"

definition adder_v2 :: "int \<Rightarrow> int \<Rightarrow> nat \<Rightarrow> int \<Rightarrow> bool \<Rightarrow> int" where
  "adder_v2 k N n x c =
     (if adder_c1 k N n x c then (adder_v1 k N n x + N) mod 2 ^ n else adder_v1 k N n x)"

definition adder_v3 :: "int \<Rightarrow> int \<Rightarrow> nat \<Rightarrow> int \<Rightarrow> bool \<Rightarrow> int" where
  "adder_v3 k N n x c = (adder_v2 k N n x c - k) mod 2 ^ n"

definition adder_c2 :: "int \<Rightarrow> int \<Rightarrow> nat \<Rightarrow> int \<Rightarrow> bool \<Rightarrow> bool" where
  "adder_c2 k N n x c = (adder_c1 k N n x c \<noteq> (\<not> msb n (adder_v3 k N n x c)))"

text \<open>Gates whose wires are distinct: what the inverse of a gate needs to undo it.\<close>

fun wf_gate :: "gate \<Rightarrow> bool" where
  "wf_gate (RZ theta w) = True"
| "wf_gate (PauliX w) = True"
| "wf_gate (CNOT c t) = (c \<noteq> t)"
| "wf_gate (SWAP x y) = True"
| "wf_gate (QFT ws) = distinct ws"
| "wf_gate (QFT_adj ws) = distinct ws"
| "wf_gate (Ctrl g cs) = (wf_gate g \<and> (\<forall>c\<in>set cs. c \<notin> set (gate_wires g)))"

text \<open>The two Fourier transforms as one kernel with a sign.\<close>

definition fourier :: "int \<Rightarrow> wire list \<Rightarrow> state \<Rightarrow> state" where
  "fourier s ws psi =
     (\<lambda>b. (\<Sum>x<2 ^ length ws.
              cis (of_int s * (2 * pi * real x * real (reg_value ws b) / 2 ^ length ws))
              * psi (set_reg ws x b))
          / sqrt (2 ^ length ws))"

text \<open>The basis state after the swaps of \<open>xs\<close> with \<open>ys\<close>, position by position.\<close>

fun swap_bits :: "wire list \<Rightarrow> wire list \<Rightarrow> bits \<Rightarrow> bits" where
  "swap_bits (x # xs) (y # ys) b = swap_bits xs ys (b(x := b y, y := b x))"
| "swap_bits xs ys b = b"

text \<open>The gates of \<open>add_in_N\<close> and of \<open>mult_out_k_N\<close> when no wire is refused: the Fourier
  transform of the extended register, one controlled adder per wire of \<open>wires_a\<close>, and
  the inverse transform.\<close>

definition weighted_sum_gates :: "(nat \<Rightarrow> int) \<Rightarrow> int \<Rightarrow> wire list \<Rightarrow> wire list \<Rightarrow> wire \<Rightarrow> gate list" where
  "weighted_sum_gates weight N wires_a ext aux =
     [QFT ext]
     @ concat (map (\<lambda>i. map (\<lambda>g. Ctrl g [wires_a ! i]) (adder_core (weight i mod N) N ext aux))
         [0..<length wires_a])
     @ [QFT_adj ext]"

text \<open>The gates of \<open>mult_in_k_N\<close> when its checks pass.\<close>

definition mult_in_gates :: "int \<Rightarrow> int \<Rightarrow> wire list \<Rightarrow> wire list \<Rightarrow> wire list \<Rightarrow> gate list" where
  "mult_in_gates k N wires_a wires_support wires_aux =
     weighted_sum_gates (\<lambda>i. k * 2 ^ (length wires_a - 1 - i)) N wires_a
        (wires_aux ! 0 # wires_support) (wires_aux ! 1)
     @ map2 SWAP wires_a wires_support
     @ weighted_sum_gates (\<lambda>i. (N - k ^ nat (N - 2) mod N) * 2 ^ (length wires_a - 1 - i)) N wires_a
        (wires_aux ! 0 # wires_support) (wires_aux ! 1)"

section \<open>Facts about the builders\<close>

lemma sum_k_length: "length (sum_k k wires) = length wires"
  by (simp add: sum_k_def)

lemma sum_k_nth: "j < length wires \<Longrightarrow> sum_k k wires ! j = RZ (of_int k * pi / 2 ^ j) (wires ! j)"
  by (simp add: sum_k_def)

lemma adjoint_sum_k: "adjoint (sum_k k wires) = rev (sum_k (- k) wires)"
  by (simp add: sum_k_def adjoint_def rev_map)

lemma controlled_conflict:
  "set controls \<inter> set (circuit_wires c) \<noteq> {} \<Longrightarrow> controlled c controls = Inl WireConflict"
proof (induction c)
  case Nil
  then show ?case by (simp add: circuit_wires_def)
next
  case (Cons g gs)
  show ?case
  proof (cases "set controls \<inter> set (gate_wires g) = {}")
    case True
    with Cons.prems have "set controls \<inter> set (circuit_wires gs) \<noteq> {}"
      by (auto simp: circuit_wires_def)
    then have "controlled gs controls = Inl WireConflict" by (rule Cons.IH)
    then show ?thesis by (simp add: add_controls_def split: sum.splits)
  next
    case False
    then have "list_ex (\<lambda>c. c \<in> set (gate_wires g)) controls"
      by (auto simp: list_ex_iff)
    then show ?thesis by (simp add: add_controls_def)
  qed
qed

lemma controlled_ok:
  "set controls \<inter> set (circuit_wires c) = {} \<Longrightarrow> controlled c controls = Inr (map (\<lambda>g. Ctrl g controls) c)"
proof (induction c)
  case Nil
  then show ?case by simp
next
  case (Cons g gs)
  from Cons.prems have a: "set controls \<inter> set (gate_wires g) = {}"
    and b: "set controls \<inter> set (circuit_wires gs) = {}"
    by (auto simp: circuit_wires_def)
  from a have "\<not> list_ex (\<lambda>c. c \<in> set (gate_wires g)) controls"
    by (auto simp: list_ex_iff)
  with Cons.IH [OF b] show ?case by (simp add: add_controls_def)
qed

lemma controlled_error: "controlled c controls = Inl e \<Longrightarrow> e = WireConflict"
  by (induction c arbitrary: e) (auto simp: add_controls_def split: if_splits sum.splits)

lemma controlled_Inr: "controlled c controls = Inr cc \<Longrightarrow> cc = map (\<lambda>g. Ctrl g controls) c"
  by (induction c arbitrary: cc) (auto simp: add_controls_def split: if_splits sum.splits)

lemma circuit_wires_append [simp]: "circuit_wires (c @ d) = circuit_wires c @ circuit_wires d"
  by (simp add: circuit_wires_def)

lemma circuit_wires_Cons [simp]: "circuit_wires (g # c) = gate_wires g @ circuit_wires c"
  by (simp add: circuit_wires_def)

lemma circuit_wires_Nil [simp]: "circuit_wires [] = []"
  by (simp add: circuit_wires_def)

lemma gate_wires_invert [simp]: "gate_wires (invert g) = gate_wires g"
  by (induction g) simp_all

lemma set_circuit_wires: "set (circuit_wires c) = (\<Union>g\<in>set c. set (gate_wires g))"
  by (simp add: circuit_wires_def)

lemma set_circuit_wires_adjoint [simp]: "set (circuit_wires (adjoint c)) = set (circuit_wires c)"
  by (simp add: set_circuit_wires adjoint_def)

lemma set_circuit_wires_sum_k [simp]: "set (circuit_wires (sum_k k ws)) = set ws"
proof -
  have "set (circuit_wires (sum_k k ws)) = (\<lambda>j. ws ! j) ` {0..<length ws}"
    by (auto simp: set_circuit_wires sum_k_def)
  also have "\<dots> = set ws"
    by (auto simp: in_set_conv_nth)
  finally show ?thesis .
qed

lemma sum_k_Nil_iff [simp]: "sum_k k ws = [] \<longleftrightarrow> ws = []"
  by (simp add: sum_k_def)

lemma set_circuit_wires_map_Ctrl:
  "set (circuit_wires (map (\<lambda>g. Ctrl g cs) c)) = (if c = [] then {} else set cs) \<union> set (circuit_wires c)"
  by (induction c) auto

lemma add_in_k_N_Inr:
  assumes "wires_a \<noteq> []" "wires_aux \<noteq> []" "wires_aux ! 0 \<notin> set wires_a"
  shows "add_in_k_N k N wires_a wires_aux std =
    Inr ((if std then [QFT wires_a] else []) @ adder_core k N wires_a (wires_aux ! 0)
         @ (if std then [QFT_adj wires_a] else []))"
proof -
  have "controlled (sum_k N wires_a) [wires_aux ! 0] = Inr (map (\<lambda>g. Ctrl g [wires_aux ! 0]) (sum_k N wires_a))"
    using assms by (intro controlled_ok) simp
  with assms show ?thesis by (simp add: add_in_k_N_def adder_core_def)
qed

lemma add_in_k_N_error:
  "wires_a \<noteq> [] \<Longrightarrow> wires_aux \<noteq> [] \<Longrightarrow> add_in_k_N k N wires_a wires_aux std = Inl e \<Longrightarrow> e = WireConflict"
  by (auto simp: add_in_k_N_def split: sum.splits dest: controlled_error)

lemma set_circuit_wires_adder_core:
  "ws \<noteq> [] \<Longrightarrow> set (circuit_wires (adder_core k N ws aux)) = insert aux (set ws)"
  by (auto simp: adder_core_def set_circuit_wires_map_Ctrl)

lemma ctrl_add_loop_Inr:
  assumes "N \<noteq> 0" "new_wires_b \<noteq> []" "aux \<noteq> []" "aux ! 0 \<notin> set new_wires_b"
    and "\<forall>i\<in>set is. wires_a ! i \<notin> insert (aux ! 0) (set new_wires_b)"
  shows "ctrl_add_loop weight N wires_a new_wires_b aux is =
     Inr (concat (map (\<lambda>i. map (\<lambda>g. Ctrl g [wires_a ! i])
                        (adder_core (weight i mod N) N new_wires_b (aux ! 0))) is))"
  using assms(5)
proof (induction "is")
  case Nil
  then show ?case by simp
next
  case (Cons i "is")
  have a: "add_in_k_N (weight i mod N) N new_wires_b aux False
      = Inr (adder_core (weight i mod N) N new_wires_b (aux ! 0))"
    using assms(2-4) by (simp add: add_in_k_N_Inr)
  have b: "controlled (adder_core (weight i mod N) N new_wires_b (aux ! 0)) [wires_a ! i]
     = Inr (map (\<lambda>g. Ctrl g [wires_a ! i]) (adder_core (weight i mod N) N new_wires_b (aux ! 0)))"
    using Cons.prems assms(2) by (intro controlled_ok) (simp add: set_circuit_wires_adder_core)
  from Cons have c: "ctrl_add_loop weight N wires_a new_wires_b aux is =
     Inr (concat (map (\<lambda>i. map (\<lambda>g. Ctrl g [wires_a ! i])
                        (adder_core (weight i mod N) N new_wires_b (aux ! 0))) is))"
    by simp
  show ?case using assms(1) by (simp add: a b c)
qed

lemma ctrl_add_loop_error:
  "N \<noteq> 0 \<Longrightarrow> new_wires_b \<noteq> [] \<Longrightarrow> aux \<noteq> [] \<Longrightarrow>
   ctrl_add_loop weight N wires_a new_wires_b aux is = Inl e \<Longrightarrow> e = WireConflict"
  by (induction "is" arbitrary: e)
     (auto split: sum.splits dest: controlled_error add_in_k_N_error)

lemma pow3_nonneg: "2 \<le> N \<Longrightarrow> pow3 k (N - 2) N = Inr (k ^ nat (N - 2) mod N)"
  by (simp add: pow3_def)

lemma fermat_test: 
  assumes "2 \<le> (N::int)"
  shows "k ^ nat (N - 2) mod N * k mod N = k ^ nat (N - 1) mod N"
proof -
  have "nat (N - 1) = Suc (nat (N - 2))" using assms by simp
  then have "k ^ nat (N - 1) = k ^ nat (N - 2) * k" by simp
  then show ?thesis by (simp add: mod_mult_left_eq)
qed

lemma inverse_coprime:
  assumes "2 \<le> (N::int)" "x * k mod N = 1"
  shows "coprime k N"
proof (rule coprimeI)
  fix c assume c: "c dvd k" "c dvd N"
  have "x * k = N * (x * k div N) + x * k mod N" by simp
  then have "1 = x * k - N * (x * k div N)" using assms(2) by simp
  moreover have "c dvd x * k - N * (x * k div N)" using c by (intro dvd_diff) auto
  ultimately show "is_unit c" by simp
qed

lemma mult_out_k_N_Inr_shape:
  assumes "mult_out_k_N k N wires_a wires_b wires_aux = Inr (msgs, gs)" "2 \<le> length wires_aux"
  shows "msgs = [] \<and> gs \<noteq> []"
  using assms by (auto simp: mult_out_k_N_def Let_def split: sum.splits)

lemma mult_out_k_N_error:
  assumes "mult_out_k_N k N wires_a wires_b wires_aux = Inl e" "N \<noteq> 0"
  shows "e = WireConflict"
  using assms by (auto simp: mult_out_k_N_def Let_def split: sum.splits if_splits dest: ctrl_add_loop_error)

lemma binary_to_integer_Cons:
  "binary_to_integer (x # xs) = x * 2 ^ length xs + binary_to_integer xs"
  by (simp add: binary_to_integer_def)

lemma binary_to_integer_Nil [simp]: "binary_to_integer [] = 0"
  by (simp add: binary_to_integer_def)

lemma place_value_absent: "w \<notin> set ws \<Longrightarrow> place_value ws w = 0"
  by (induction ws) (auto simp: place_value_def binary_to_integer_Cons)

lemma place_value_first: "w \<notin> set ws \<Longrightarrow> place_value (w # ws) w = 2 ^ length ws"
  using place_value_absent [of w ws] by (simp add: place_value_def binary_to_integer_Cons)

lemma disjoint_nth: "set xs \<inter> S = {} \<Longrightarrow> \<forall>i\<in>set [0..<length xs]. xs ! i \<notin> S"
  using nth_mem by fastforce

lemma add_in_N_Inr:
  assumes "N \<noteq> 0" "aux1 @ wires_b \<noteq> []" "aux2 \<noteq> []" "aux2 ! 0 \<notin> set (aux1 @ wires_b)"
    and "set wires_a \<inter> insert (aux2 ! 0) (set (aux1 @ wires_b)) = {}"
  shows "add_in_N N wires_a wires_b aux1 aux2 =
     Inr ([QFT (aux1 @ wires_b)]
          @ concat (map (\<lambda>i. map (\<lambda>g. Ctrl g [wires_a ! i])
                        (adder_core (2 ^ (length wires_a - 1 - i) mod N) N (aux1 @ wires_b) (aux2 ! 0)))
                    [0..<length wires_a])
          @ [QFT_adj (aux1 @ wires_b)])"
proof -
  have "\<forall>i\<in>set [0..<length wires_a]. wires_a ! i \<notin> insert (aux2 ! 0) (set (aux1 @ wires_b))"
    using assms(5) by (rule disjoint_nth)
  from ctrl_add_loop_Inr [OF assms(1-4) this] show ?thesis
    by (simp add: add_in_N_def Let_def)
qed

lemma mult_out_k_N_Inr:
  assumes "N \<noteq> 0" "2 \<le> length wires_aux" "wires_aux ! 1 \<notin> set (wires_aux ! 0 # wires_b)"
    and "set wires_a \<inter> insert (wires_aux ! 1) (set (wires_aux ! 0 # wires_b)) = {}"
  shows "mult_out_k_N k N wires_a wires_b wires_aux =
     Inr ([], [QFT (wires_aux ! 0 # wires_b)]
          @ concat (map (\<lambda>i. map (\<lambda>g. Ctrl g [wires_a ! i])
                        (adder_core (k * 2 ^ (length wires_a - 1 - i) mod N) N (wires_aux ! 0 # wires_b) (wires_aux ! 1)))
                    [0..<length wires_a])
          @ [QFT_adj (wires_aux ! 0 # wires_b)])"
proof -
  have a: "\<forall>i\<in>set [0..<length wires_a]. wires_a ! i \<notin> insert ([wires_aux ! 1] ! 0) (set (wires_aux ! 0 # wires_b))"
    using disjoint_nth [OF assms(4)] by simp
  have b: "[wires_aux ! 1] ! 0 \<notin> set (wires_aux ! 0 # wires_b)" using assms(3) by simp
  from ctrl_add_loop_Inr [OF assms(1) _ _ b a, of "\<lambda>i. k * 2 ^ (length wires_a - 1 - i)"] assms(2)
  show ?thesis
    by (simp add: mult_out_k_N_def Let_def)
qed

section \<open>The gate sequences of the builders\<close>

text \<open>
  Claim C9. For every circuit \<open>c\<close> and every list of control wires that is not disjoint
  from the wires used in \<open>c\<close>, wrapping \<open>c\<close> with those controls fails with the
  \<open>WireConflict\<close> error: no circuit is returned.
\<close>

theorem controlled_wire_conflict:
  "set controls \<inter> set (circuit_wires c) \<noteq> {} \<Longrightarrow> controlled c controls = Inl WireConflict"
  by (rule controlled_conflict)

theorem controlled_wire_conflict_witness:
  "set [1] \<inter> set (circuit_wires [PauliX 0, CNOT 0 (1::nat)]) \<noteq> {}
   \<and> controlled [PauliX 0, CNOT 0 1] [1] = Inl WireConflict"
proof -
  have h: "set [1] \<inter> set (circuit_wires [PauliX 0, CNOT 0 (1::nat)]) \<noteq> {}" by simp
  from h controlled_wire_conflict [OF h] show ?thesis by simp
qed

text \<open>
  Claim C5, amended. If \<open>k\<close> has no inverse modulo \<open>N\<close> (\<open>N \<ge> 2\<close>), \<open>mult_in_k_N\<close> emits no
  gate: it prints a message and returns normally, so its caller gets the empty circuit
  and no error. (The message is the one of the wire check when that check fails first.)
\<close>

theorem mult_in_k_N_no_inverse:
  assumes "2 \<le> N" "\<not> coprime k N"
  shows "mult_in_k_N k N wires_a wires_support wires_aux =
     Inr (if length wires_aux < 2 \<or> length wires_a \<noteq> length wires_support
          then [Not_enough_ancillary_qubits] else [FALLO_no_existe_el_inverso k N], [])"
proof -
  have "k ^ nat (N - 2) mod N * k mod N \<noteq> 1"
    using inverse_coprime [OF assms(1)] assms(2) by blast
  then show ?thesis using assms(1) by (simp add: mult_in_k_N_def pow3_nonneg)
qed

theorem mult_in_k_N_no_inverse_witness:
  "(2::int) \<le> 4 \<and> \<not> coprime (2::int) 4
   \<and> mult_in_k_N 2 4 [0, 1] [2, 3] [4, 5] = Inr ([FALLO_no_existe_el_inverso 2 4], [])"
proof -
  have h: "\<not> coprime (2::int) 4" by (simp add: coprime_iff_gcd_eq_1)
  from mult_in_k_N_no_inverse [OF _ h, of "[0, 1]" "[2, 3]" "[4, 5]"] h show ?thesis by simp
qed

text \<open>As stated (an error, raised before any gate) the claim fails: 2 has no inverse
  modulo 4, and the result is a normal return.\<close>

theorem mult_in_k_N_no_error_counterexample:
  "\<not> coprime (2::int) 4
   \<and> mult_in_k_N 2 4 [0, 1] [2, 3] [4, 5] = Inr ([FALLO_no_existe_el_inverso 2 4], [])
   \<and> (\<forall>e. mult_in_k_N 2 4 [0, 1] [2, 3] [4, 5] \<noteq> Inl e)"
proof -
  have h: "\<not> coprime (2::int) 4" by (simp add: coprime_iff_gcd_eq_1)
  have "mult_in_k_N 2 4 [0, 1] [2, 3] [4, 5] = Inr ([FALLO_no_existe_el_inverso 2 4], [])"
    by (simp add: mult_in_k_N_def pow3_def)
  with h show ?thesis by simp
qed

lemma place_value_Cons_other:
  "v \<noteq> w \<Longrightarrow> place_value (v # ws) w = place_value ws w"
  by (simp add: place_value_def binary_to_integer_Cons)

lemma place_value_nth:
  "distinct ws \<Longrightarrow> i < length ws \<Longrightarrow> place_value ws (ws ! i) = 2 ^ (length ws - 1 - i)"
proof (induction ws arbitrary: i)
  case Nil
  then show ?case by simp
next
  case (Cons w ws)
  show ?case
  proof (cases i)
    case 0
    with Cons.prems show ?thesis by (simp add: place_value_first)
  next
    case (Suc j)
    with Cons.prems have "w \<noteq> ws ! j" by auto
    with Cons Suc show ?thesis by (simp add: place_value_Cons_other)
  qed
qed

lemma three_steps_of_mult_in_k_N:
  assumes "2 \<le> N" "2 \<le> length wires_aux" "length wires_a = length wires_support"
    and "k ^ nat (N - 1) mod N = 1"
    and "mult_out_k_N k N wires_a wires_support wires_aux = Inr (msgs1, step1)"
    and "mult_out_k_N (N - k ^ nat (N - 2) mod N) N wires_a wires_support wires_aux = Inr (msgs3, step3)"
  shows "mult_in_k_N k N wires_a wires_support wires_aux =
     Inr ([], step1 @ map (\<lambda>i. SWAP (wires_a ! i) (wires_support ! i)) [0..<length wires_a] @ step3)"
proof -
  have "msgs1 = []" "msgs3 = []"
    using mult_out_k_N_Inr_shape assms(2,5,6) by blast+
  moreover have "k ^ nat (N - 2) mod N * k mod N = 1"
    using assms(1,4) by (simp add: fermat_test)
  ultimately show ?thesis using assms by (simp add: mult_in_k_N_def pow3_nonneg)
qed

text \<open>
  Claim C7, amended. In \<open>add_in_N\<close> the support ancilla is put in front of the result
  register, as the extra most significant wire of the extended register (weight
  \<open>2 ^ length wires_b\<close>), before the Fourier transform; then for each index \<open>i\<close> of
  \<open>wires_a\<close>, from the most to the least significant wire, the gates of one
  \<open>add_in_k_N\<close> in the Fourier basis with the constant \<open>2 ^ (width - 1 - i) mod N\<close> (the
  weight of wire \<open>i\<close> reduced modulo \<open>N\<close>) follow, each controlled on wire \<open>i\<close>; the inverse
  Fourier transform ends the circuit.
\<close>

theorem add_in_N_structure:
  assumes "N \<noteq> 0" "aux2 \<noteq> []" "s \<notin> set wires_b" "aux2 ! 0 \<notin> set (s # wires_b)"
    and "set wires_a \<inter> insert (aux2 ! 0) (set (s # wires_b)) = {}" "distinct wires_a"
  shows "\<exists>cs. length cs = length wires_a
      \<and> (\<forall>i<length wires_a.
            place_value wires_a (wires_a ! i) = 2 ^ (length wires_a - 1 - i)
            \<and> add_in_k_N (2 ^ (length wires_a - 1 - i) mod N) N (s # wires_b) aux2 False = Inr (cs ! i))
      \<and> add_in_N N wires_a wires_b [s] aux2 =
          Inr ([QFT (s # wires_b)]
               @ concat (map (\<lambda>i. map (\<lambda>g. Ctrl g [wires_a ! i]) (cs ! i)) [0..<length wires_a])
               @ [QFT_adj (s # wires_b)])
      \<and> place_value (s # wires_b) s = 2 ^ length wires_b"
proof -
  define cs where "cs = map (\<lambda>i. adder_core (2 ^ (length wires_a - 1 - i) mod N) N (s # wires_b) (aux2 ! 0))
     [0..<length wires_a]"
  have 1: "length cs = length wires_a" by (simp add: cs_def)
  have 2: "add_in_k_N (2 ^ (length wires_a - 1 - i) mod N) N (s # wires_b) aux2 False = Inr (cs ! i)"
    if "i < length wires_a" for i
    using that assms(2,4) by (simp add: add_in_k_N_Inr cs_def)
  have 3: "add_in_N N wires_a wires_b [s] aux2 =
          Inr ([QFT (s # wires_b)]
               @ concat (map (\<lambda>i. map (\<lambda>g. Ctrl g [wires_a ! i]) (cs ! i)) [0..<length wires_a])
               @ [QFT_adj (s # wires_b)])"
  proof -
    have eq: "map (\<lambda>i. map (\<lambda>g. Ctrl g [wires_a ! i]) (cs ! i)) [0..<length wires_a]
        = map (\<lambda>i. map (\<lambda>g. Ctrl g [wires_a ! i])
             (adder_core (2 ^ (length wires_a - 1 - i) mod N) N (s # wires_b) (aux2 ! 0))) [0..<length wires_a]"
      by (rule map_cong) (simp_all add: cs_def)
    show ?thesis
      unfolding eq using add_in_N_Inr [of N "[s]" wires_b aux2 wires_a] assms by simp
  qed
  show ?thesis
    using 1 2 3 assms(3,6) by (intro exI [of _ cs]) (simp add: place_value_first place_value_nth)
qed

theorem add_in_N_structure_witness:
  "\<exists>cs. length cs = length [0, 1, 2::nat]
      \<and> (\<forall>i<length [0, 1, 2::nat].
            place_value [0, 1, 2] ([0, 1, 2] ! i) = 2 ^ (length [0, 1, 2::nat] - 1 - i)
            \<and> add_in_k_N (2 ^ (length [0, 1, 2::nat] - 1 - i) mod 5) 5 (6 # [3, 4, 5]) [7] False = Inr (cs ! i))
      \<and> add_in_N 5 [0, 1, 2] [3, 4, 5] [6] [7] =
          Inr ([QFT (6 # [3, 4, 5])]
               @ concat (map (\<lambda>i. map (\<lambda>g. Ctrl g [[0, 1, 2] ! i]) (cs ! i)) [0..<length [0, 1, 2::nat]])
               @ [QFT_adj (6 # [3, 4, 5])])
      \<and> place_value (6 # [3, 4, 5]) 6 = 2 ^ length [3, 4, 5::nat]"
  by (rule add_in_N_structure) simp_all

text \<open>As stated (the ancilla is the low-order wire) the claim fails: in the notebook's
  example the ancilla 6 has weight 8, and the wire of weight 1 is wire 5.\<close>

theorem add_in_N_ancilla_high_order_counterexample:
  "(\<exists>rest. add_in_N 5 [0, 1, 2] [3, 4, 5] [6] [7] = Inr (QFT [6, 3, 4, 5] # rest))
   \<and> place_value [6, 3, 4, 5] 6 \<noteq> 1 \<and> place_value [6, 3, 4, 5] 5 = 1"
  by (simp add: add_in_N_Inr place_value_def binary_to_integer_def upt_rec)

text \<open>
  Claim C10. For \<open>N \<ge> 2\<close>, \<open>mult_in_k_N\<close> emits gates exactly when
  \<open>pow(k, N - 2, N) * k % N = 1\<close>, that is when \<open>k ^ (N - 1) mod N = 1\<close>. When the test
  passes (two auxiliary wires, registers of equal width, the second ancilla outside the
  extended support register, and the input register disjoint from both), the result is
  a circuit that is not empty, from the Fourier transform of the extended support
  register to its inverse, and nothing is printed. Conversely, whenever a gate is
  emitted, the test has passed. When the test fails, as when there are fewer than two
  auxiliary wires or the register widths differ, the function returns the empty circuit
  and a printed message, not an error. The test rejects \<open>k = 3\<close>, \<open>N = 8\<close>, although 3 is
  invertible modulo 8.
\<close>

theorem mult_in_k_N_fermat_gate:
  "(length wires_aux < 2 \<or> length wires_a \<noteq> length wires_support \<longrightarrow>
      mult_in_k_N k N wires_a wires_support wires_aux = Inr ([Not_enough_ancillary_qubits], []))
   \<and> (2 \<le> N \<longrightarrow> pow3 k (N - 2) N = Inr (k ^ nat (N - 2) mod N)
        \<and> (k ^ nat (N - 2) mod N * k mod N = 1 \<longleftrightarrow> k ^ nat (N - 1) mod N = 1))
   \<and> (2 \<le> N \<and> 2 \<le> length wires_aux \<and> length wires_a = length wires_support
        \<and> k ^ nat (N - 1) mod N \<noteq> 1 \<longrightarrow>
        mult_in_k_N k N wires_a wires_support wires_aux = Inr ([FALLO_no_existe_el_inverso k N], []))
   \<and> (2 \<le> N \<and> 2 \<le> length wires_aux \<and> length wires_a = length wires_support
        \<and> wires_aux ! 1 \<notin> set (wires_aux ! 0 # wires_support)
        \<and> set wires_a \<inter> insert (wires_aux ! 1) (set (wires_aux ! 0 # wires_support)) = {}
        \<and> k ^ nat (N - 1) mod N = 1 \<longrightarrow>
        (\<exists>gs. mult_in_k_N k N wires_a wires_support wires_aux = Inr ([], gs)
           \<and> gs \<noteq> []
           \<and> hd gs = QFT (wires_aux ! 0 # wires_support)
           \<and> last gs = QFT_adj (wires_aux ! 0 # wires_support)))
   \<and> (2 \<le> N \<longrightarrow>
        (\<forall>msgs gs. mult_in_k_N k N wires_a wires_support wires_aux = Inr (msgs, gs) \<and> gs \<noteq> [] \<longrightarrow>
           2 \<le> length wires_aux \<and> length wires_a = length wires_support
           \<and> k ^ nat (N - 1) mod N = 1))
   \<and> coprime (3::int) 8
   \<and> (2 \<le> length wires_aux \<and> length wires_a = length wires_support \<longrightarrow>
        mult_in_k_N 3 8 wires_a wires_support wires_aux = Inr ([FALLO_no_existe_el_inverso 3 8], []))"
proof -
  have 1: "mult_in_k_N k N wires_a wires_support wires_aux = Inr ([Not_enough_ancillary_qubits], [])"
    if "length wires_aux < 2 \<or> length wires_a \<noteq> length wires_support"
    using that by (auto simp: mult_in_k_N_def)
  have 3: "mult_in_k_N k N wires_a wires_support wires_aux = Inr ([FALLO_no_existe_el_inverso k N], [])"
    if "2 \<le> N" "2 \<le> length wires_aux" "length wires_a = length wires_support"
       "k ^ nat (N - 1) mod N \<noteq> 1" for k N
    using that by (simp add: mult_in_k_N_def pow3_nonneg fermat_test)
  have 4: "\<exists>gs. mult_in_k_N k N wires_a wires_support wires_aux = Inr ([], gs)
           \<and> gs \<noteq> []
           \<and> hd gs = QFT (wires_aux ! 0 # wires_support)
           \<and> last gs = QFT_adj (wires_aux ! 0 # wires_support)"
    if h: "2 \<le> N" "2 \<le> length wires_aux" "length wires_a = length wires_support"
       "k ^ nat (N - 1) mod N = 1"
      and w: "wires_aux ! 1 \<notin> set (wires_aux ! 0 # wires_support)"
       "set wires_a \<inter> insert (wires_aux ! 1) (set (wires_aux ! 0 # wires_support)) = {}"
  proof -
    have n: "N \<noteq> 0" using h(1) by simp
    note out = mult_out_k_N_Inr [OF n h(2) w]
    show ?thesis
      unfolding three_steps_of_mult_in_k_N [OF h out out] by simp
  qed
  have 5: "2 \<le> length wires_aux \<and> length wires_a = length wires_support
           \<and> k ^ nat (N - 1) mod N = 1"
    if N: "2 \<le> N" and r: "mult_in_k_N k N wires_a wires_support wires_aux = Inr (msgs, gs)"
      and g: "gs \<noteq> []" for msgs gs
  proof -
    have l: "\<not> (length wires_aux < 2 \<or> length wires_a \<noteq> length wires_support)"
      using 1 r g by auto
    then have "k ^ nat (N - 1) mod N = 1" using 3 [OF N, of k] r g by auto
    then show ?thesis using l by simp
  qed
  have 6: "coprime (3::int) 8" using inverse_coprime [of 8 3 3] by simp
  have 7: "mult_in_k_N 3 8 wires_a wires_support wires_aux = Inr ([FALLO_no_existe_el_inverso 3 8], [])"
    if "2 \<le> length wires_aux" "length wires_a = length wires_support"
    using that 3 [of 8 3] by simp
  have 2: "pow3 k (N - 2) N = Inr (k ^ nat (N - 2) mod N)
        \<and> (k ^ nat (N - 2) mod N * k mod N = 1 \<longleftrightarrow> k ^ nat (N - 1) mod N = 1)"
    if "2 \<le> N"
    using that by (simp add: pow3_nonneg fermat_test)
  show ?thesis using 1 2 3 [of N k] 4 5 6 7 by blast
qed

theorem mult_in_k_N_fermat_gate_witness:
  "mult_in_k_N 3 5 [0] [1] [] = Inr ([Not_enough_ancillary_qubits], [])
   \<and> mult_in_k_N 3 8 [0, 1, 2] [3, 4, 5] [6, 7] = Inr ([FALLO_no_existe_el_inverso 3 8], [])
   \<and> (3::int) ^ nat (5 - 1) mod 5 = 1
   \<and> (\<exists>gs. mult_in_k_N 3 5 [0, 1, 2] [3, 4, 5] [6, 7] = Inr ([], gs)
         \<and> gs \<noteq> []
         \<and> hd gs = QFT [6, 3, 4, 5]
         \<and> last gs = QFT_adj [6, 3, 4, 5])"
  using mult_in_k_N_fermat_gate [of "[]" "[0]" "[1]" 3 5]
    mult_in_k_N_fermat_gate [of "[6, 7]" "[0, 1, 2]" "[3, 4, 5]" 3 5]
  by simp

section \<open>Facts about the execution of circuits\<close>

subsection \<open>Registers and bits\<close>

lemma binary_to_integer_bits_nonneg:
  "0 \<le> binary_to_integer (map (\<lambda>w. if b w then 1 else 0) ws)"
  by (induction ws) (simp_all add: binary_to_integer_Cons)

lemma reg_value_Nil [simp]: "reg_value [] b = 0"
  by (simp add: reg_value_def)

lemma reg_value_Cons:
  "reg_value (w # ws) b = (if b w then 2 ^ length ws else 0) + reg_value ws b"
  using binary_to_integer_bits_nonneg [of b ws]
  by (simp add: reg_value_def binary_to_integer_Cons nat_add_distrib nat_power_eq)

lemma reg_value_less: "reg_value ws b < 2 ^ length ws"
  by (induction ws) (simp_all add: reg_value_Cons)

lemma reg_value_cong:
  "(\<And>w. w \<in> set ws \<Longrightarrow> b w = b' w) \<Longrightarrow> reg_value ws b = reg_value ws b'"
  by (induction ws) (simp_all add: reg_value_Cons)

lemma reg_value_upd [simp]: "w \<notin> set ws \<Longrightarrow> reg_value ws (b(w := v)) = reg_value ws b"
  by (rule reg_value_cong) auto

lemma set_reg_other [simp]: "w \<notin> set ws \<Longrightarrow> set_reg ws x b w = b w"
  by (induction ws) auto

lemma set_reg_inside: "w \<in> set ws \<Longrightarrow> set_reg ws x b w = set_reg ws x b' w"
  by (induction ws) auto

lemma set_reg_upd_commute:
  "w \<notin> set ws \<Longrightarrow> set_reg ws x (b(w := v)) = (set_reg ws x b)(w := v)"
  by (induction ws) (auto simp: fun_upd_twist)

lemma set_reg_mod: "set_reg ws (x mod 2 ^ length ws) b = set_reg ws x b"
proof (induction ws arbitrary: x)
  case Nil
  then show ?case by simp
next
  case (Cons w ws)
  have a: "x mod 2 ^ Suc (length ws) mod 2 ^ length ws = x mod 2 ^ length ws"
    by (simp add: mod_mod_cancel)
  have "set_reg ws (x mod 2 ^ Suc (length ws)) b = set_reg ws (x mod 2 ^ Suc (length ws) mod 2 ^ length ws) b"
    by (simp only: Cons.IH)
  also have "\<dots> = set_reg ws x b" by (simp only: a Cons.IH)
  finally have b: "set_reg ws (x mod 2 ^ Suc (length ws)) b = set_reg ws x b" .
  have c: "odd (x mod 2 ^ Suc (length ws) div 2 ^ length ws) = odd (x div 2 ^ length ws)"
  proof -
    have "x mod (2 ^ length ws * 2) = 2 ^ length ws * (x div 2 ^ length ws mod 2) + x mod 2 ^ length ws"
      by (rule mod_mult2_eq)
    then have "x mod 2 ^ Suc (length ws) div 2 ^ length ws = x div 2 ^ length ws mod 2"
      by (simp add: mult.commute)
    then show ?thesis by simp
  qed
  show ?case using b c by simp
qed

lemma reg_value_set_reg_mod:
  "distinct ws \<Longrightarrow> reg_value ws (set_reg ws x b) = x mod 2 ^ length ws"
proof (induction ws)
  case Nil
  then show ?case by simp
next
  case (Cons w ws)
  then have ih: "reg_value ws (set_reg ws x b) = x mod 2 ^ length ws" and w: "w \<notin> set ws" by auto
  have "x mod (2 ^ length ws * 2) = 2 ^ length ws * (x div 2 ^ length ws mod 2) + x mod 2 ^ length ws"
    by (rule mod_mult2_eq)
  then have "x mod 2 ^ Suc (length ws) = 2 ^ length ws * (x div 2 ^ length ws mod 2) + x mod 2 ^ length ws"
    by (simp add: mult.commute)
  then have e: "x mod 2 ^ Suc (length ws) = (if odd (x div 2 ^ length ws) then 2 ^ length ws else 0) + x mod 2 ^ length ws"
    by (simp add: odd_iff_mod_2_eq_one)
  have "reg_value (w # ws) (set_reg (w # ws) x b)
      = (if odd (x div 2 ^ length ws) then 2 ^ length ws else 0) + reg_value ws (set_reg ws x b)"
    using w by (simp add: reg_value_Cons)
  also have "\<dots> = x mod 2 ^ Suc (length ws)"
    unfolding ih e ..
  finally have r: "reg_value (w # ws) (set_reg (w # ws) x b) = x mod 2 ^ Suc (length ws)" .
  have l: "length (w # ws) = Suc (length ws)" by simp
  show ?case unfolding l by (rule r)
qed

lemma reg_value_set_reg:
  "distinct ws \<Longrightarrow> x < 2 ^ length ws \<Longrightarrow> reg_value ws (set_reg ws x b) = x"
  by (simp add: reg_value_set_reg_mod)

lemma set_reg_reg_value: "set_reg ws (reg_value ws b) b = b"
proof (induction ws)
  case Nil
  then show ?case by simp
next
  case (Cons w ws)
  have "set_reg ws (reg_value (w # ws) b) b = set_reg ws (reg_value (w # ws) b mod 2 ^ length ws) b"
    by (simp only: set_reg_mod)
  also have "reg_value (w # ws) b mod 2 ^ length ws = reg_value ws b"
    using reg_value_less [of ws b] by (simp add: reg_value_Cons)
  finally have a: "set_reg ws (reg_value (w # ws) b) b = b" using Cons.IH by simp
  have "reg_value (w # ws) b div 2 ^ length ws = (if b w then 1 else 0)"
    using reg_value_less [of ws b] by (simp add: reg_value_Cons)
  then have "odd (reg_value (w # ws) b div 2 ^ length ws) = b w" by simp
  with a show ?case by simp
qed

lemma set_reg_set_reg [simp]: "set_reg ws x (set_reg ws y b) = set_reg ws x b"
proof (rule ext)
  fix w show "set_reg ws x (set_reg ws y b) w = set_reg ws x b w"
    by (cases "w \<in> set ws") (simp_all add: set_reg_inside [of w ws x "set_reg ws y b" b])
qed

lemma same_off_refl [simp]: "same_off ws b b"
  by (simp add: same_off_def)

lemma same_off_set_reg [simp]: "same_off ws b (set_reg ws x b') \<longleftrightarrow> same_off ws b b'"
  by (simp add: same_off_def)

lemma same_off_set_reg_left [simp]: "same_off ws (set_reg ws x b) b' \<longleftrightarrow> same_off ws b b'"
  by (simp add: same_off_def)

lemma set_reg_same_off: "same_off ws b b' \<Longrightarrow> set_reg ws x b' = set_reg ws x b"
proof (rule ext)
  fix w assume "same_off ws b b'"
  then show "set_reg ws x b' w = set_reg ws x b w"
    by (cases "w \<in> set ws") (simp_all add: set_reg_inside [of w ws x b' b] same_off_def)
qed

lemma set_reg_eq_iff:
  assumes "distinct ws" "x < 2 ^ length ws"
  shows "set_reg ws x b' = b \<longleftrightarrow> same_off ws b b' \<and> x = reg_value ws b"
proof
  assume h: "set_reg ws x b' = b"
  have "same_off ws b b'" unfolding h [symmetric] by simp
  moreover have "reg_value ws b = x" unfolding h [symmetric] using assms by (rule reg_value_set_reg)
  ultimately show "same_off ws b b' \<and> x = reg_value ws b" by simp
next
  assume h: "same_off ws b b' \<and> x = reg_value ws b"
  then have "set_reg ws x b' = set_reg ws (reg_value ws b) b" by (simp add: set_reg_same_off)
  then show "set_reg ws x b' = b" by (simp add: set_reg_reg_value)
qed

lemma set_reg_msb:
  assumes "distinct ws" "ws \<noteq> []" "x < 2 ^ length ws"
  shows "set_reg ws x b (ws ! 0) \<longleftrightarrow> 2 ^ (length ws - 1) \<le> x"
proof -
  obtain w ws' where ws: "ws = w # ws'" using assms(2) by (cases ws) auto
  have "x div 2 ^ length ws' < 2" using assms(3) ws by (simp add: less_mult_imp_div_less)
  then have "odd (x div 2 ^ length ws') \<longleftrightarrow> x div 2 ^ length ws' = 1"
    by (cases "x div 2 ^ length ws' = 0") auto
  also have "\<dots> \<longleftrightarrow> 2 ^ length ws' \<le> x"
  proof (cases "2 ^ length ws' \<le> x")
    case True
    then have "0 < x div 2 ^ length ws'" by (simp add: div_greater_zero_iff)
    with \<open>x div 2 ^ length ws' < 2\<close> True show ?thesis by simp
  next
    case False
    then show ?thesis by simp
  qed
  finally show ?thesis using ws by simp
qed

lemma cis_eq_1_iff_dvd:
  assumes "0 < M"
  shows "cis (2 * pi * of_int d / real M) = 1 \<longleftrightarrow> int M dvd d"
proof
  assume "cis (2 * pi * of_int d / real M) = 1"
  then have "cos (2 * pi * of_int d / real M) = 1" by (simp add: complex_eq_iff)
  then obtain k :: int where "2 * pi * of_int d / real M = of_int k * 2 * pi"
    by (auto simp: cos_one_2pi_int)
  with assms have "(of_int d :: real) = of_int k * real M" by (simp add: field_simps)
  also have "\<dots> = of_int (k * int M)" by simp
  finally have "d = k * int M" by (simp only: of_int_eq_iff)
  then show "int M dvd d" by simp
next
  assume "int M dvd d"
  then obtain k where "d = int M * k" by (auto elim: dvdE)
  then have "2 * pi * of_int d / real M = 2 * pi * of_int k" using assms by simp
  then show "cis (2 * pi * of_int d / real M) = 1" by simp
qed

lemma roots_of_unity_sum:
  assumes "0 < M"
  shows "(\<Sum>y<M. cis (2 * pi * real y * of_int d / real M)) = (if int M dvd d then of_nat M else 0)"
proof -
  define r where "r = cis (2 * pi * of_int d / real M)"
  have p: "cis (2 * pi * real y * of_int d / real M) = r ^ y" for y
    by (simp add: r_def DeMoivre mult_ac)
  have "r ^ M = cis (2 * pi * of_int d)" using assms by (simp add: r_def DeMoivre)
  then have rM: "r ^ M = 1" by simp
  have "(\<Sum>y<M. r ^ y) = (if r = 1 then of_nat M else (1 - r ^ M) / (1 - r))"
    by (rule sum_gp_strict)
  also have "\<dots> = (if int M dvd d then of_nat M else 0)"
  proof -
    have "r = 1 \<longleftrightarrow> int M dvd d" unfolding r_def by (rule cis_eq_1_iff_dvd [OF assms])
    then show ?thesis by (simp add: rM)
  qed
  finally show ?thesis by (simp add: p)
qed

lemma QFT_ket:
  assumes "distinct ws"
  shows "apply_gate (QFT ws) (ket b) = fstate ws (int (reg_value ws b)) b"
proof (rule ext)
  fix b'
  let ?n = "length ws"
  have k: "ket b (set_reg ws x b') = (if same_off ws b b' \<and> x = reg_value ws b then 1 else 0)"
    if "x < 2 ^ ?n" for x
    using set_reg_eq_iff [OF assms that, of b' b] by (simp add: ket_def)
  have "(\<Sum>x<2 ^ ?n. cis (2 * pi * real x * real (reg_value ws b') / 2 ^ ?n) * ket b (set_reg ws x b'))
      = (\<Sum>x<2 ^ ?n. if x = reg_value ws b
            then (if same_off ws b b' then cis (2 * pi * real x * real (reg_value ws b') / 2 ^ ?n) else 0)
            else 0)"
    by (rule sum.cong) (simp_all add: k)
  also have "\<dots> = (if same_off ws b b'
      then cis (2 * pi * real (reg_value ws b) * real (reg_value ws b') / 2 ^ ?n) else 0)"
    using reg_value_less [of ws b] by (simp add: sum.delta)
  finally show "apply_gate (QFT ws) (ket b) b' = fstate ws (int (reg_value ws b)) b b'"
    by (simp add: fstate_def)
qed

lemma fstate_mod: "fstate ws (x mod 2 ^ length ws) b = fstate ws x b"
proof (rule ext)
  fix b'
  let ?M = "(2::nat) ^ length ws"
  have "x = x mod int ?M + int ?M * (x div int ?M)" by simp
  then have "(of_int x :: real) = of_int (x mod int ?M) + real ?M * of_int (x div int ?M)"
    by (metis of_int_add of_int_mult of_int_of_nat_eq)
  then have "2 * pi * of_int x * real (reg_value ws b') / real ?M
     = 2 * pi * of_int (x mod int ?M) * real (reg_value ws b') / real ?M
       + 2 * pi * of_int (x div int ?M * int (reg_value ws b'))"
    by (simp add: field_simps)
  then have "cis (2 * pi * of_int x * real (reg_value ws b') / real ?M)
     = cis (2 * pi * of_int (x mod int ?M) * real (reg_value ws b') / real ?M)
       * cis (2 * pi * of_int (x div int ?M * int (reg_value ws b')))"
    by (simp only: cis_mult)
  also have "cis (2 * pi * of_int (x div int ?M * int (reg_value ws b'))) = 1"
    by (rule cis_multiple_2pi) simp
  finally show "fstate ws (x mod 2 ^ length ws) b b' = fstate ws x b b'"
    by (simp add: fstate_def)
qed

lemma fstate_same_off: "same_off ws b b' \<Longrightarrow> fstate ws x b' = fstate ws x b"
  by (rule ext) (auto simp: fstate_def same_off_def)

lemma fstate_set_reg [simp]: "fstate ws x (set_reg ws y b) = fstate ws x b"
  by (rule fstate_same_off) simp

lemma QFT_adj_fstate:
  assumes "distinct ws"
  shows "apply_gate (QFT_adj ws) (fstate ws x b) = ket (set_reg ws (nat (x mod 2 ^ length ws)) b)"
proof (rule ext)
  fix b'
  let ?n = "length ws"
  let ?M = "(2::nat) ^ length ws"
  let ?v = "reg_value ws b'"
  have M: "0 < ?M" by simp
  have "complex_of_real (sqrt (2 ^ ?n) * sqrt (2 ^ ?n)) = of_nat ?M" by simp
  then have sq: "complex_of_real (sqrt (2 ^ ?n)) * complex_of_real (sqrt (2 ^ ?n)) = of_nat ?M"
    by (simp only: of_real_mult)
  have t: "cis (- (2 * pi * real y * real ?v / 2 ^ ?n)) * fstate ws x b (set_reg ws y b')
      = (if same_off ws b b' then cis (2 * pi * real y * of_int (x - int ?v) / real ?M) / sqrt (2 ^ ?n) else 0)"
    if "y < 2 ^ ?n" for y
  proof -
    have "cis (- (2 * pi * real y * real ?v / 2 ^ ?n)) * cis (2 * pi * of_int x * real y / 2 ^ ?n)
        = cis (2 * pi * real y * of_int (x - int ?v) / real ?M)"
      by (simp add: cis_mult field_simps)
    then show ?thesis using that assms
      by (simp add: fstate_def reg_value_set_reg)
  qed
  have "apply_gate (QFT_adj ws) (fstate ws x b) b'
      = (\<Sum>y<2 ^ ?n. if same_off ws b b'
           then cis (2 * pi * real y * of_int (x - int ?v) / real ?M) / sqrt (2 ^ ?n) else 0) / sqrt (2 ^ ?n)"
    by (simp add: t)
  also have "\<dots> = (if same_off ws b b'
           then (\<Sum>y<?M. cis (2 * pi * real y * of_int (x - int ?v) / real ?M)) / real ?M else 0)"
  proof -
    have "(\<Sum>y<?M. cis (2 * pi * real y * of_int (x - int ?v) / real ?M) / complex_of_real (sqrt (2 ^ ?n)))
          / complex_of_real (sqrt (2 ^ ?n))
      = (\<Sum>y<?M. cis (2 * pi * real y * of_int (x - int ?v) / real ?M))
          / (complex_of_real (sqrt (2 ^ ?n)) * complex_of_real (sqrt (2 ^ ?n)))"
      by (simp only: sum_divide_distrib [symmetric] divide_divide_eq_left)
    then show ?thesis by (simp only: sq) simp
  qed
  also have "\<dots> = (if same_off ws b b' \<and> int ?M dvd (x - int ?v) then 1 else 0)"
    by (simp only: roots_of_unity_sum [OF M]) simp
  also have "\<dots> = ket (set_reg ws (nat (x mod 2 ^ ?n)) b) b'"
  proof -
    have lt: "nat (x mod 2 ^ ?n) < 2 ^ ?n"
      by (simp add: nat_less_iff)
    have "int ?M dvd (x - int ?v) \<longleftrightarrow> nat (x mod 2 ^ ?n) = ?v"
    proof -
      have "int ?M dvd (x - int ?v) \<longleftrightarrow> x mod int ?M = int ?v mod int ?M"
        by (simp add: mod_eq_dvd_iff)
      also have "int ?v mod int ?M = int ?v"
        using reg_value_less [of ws b'] by (simp add: zmod_int [symmetric])
      finally have "int ?M dvd (x - int ?v) \<longleftrightarrow> x mod int ?M = int ?v" .
      moreover have "0 \<le> x mod int ?M" by simp
      ultimately show ?thesis by (simp add: nat_eq_iff)
    qed
    moreover have "b' = set_reg ws (nat (x mod 2 ^ ?n)) b \<longleftrightarrow> same_off ws b' b \<and> nat (x mod 2 ^ ?n) = ?v"
      using set_reg_eq_iff [OF assms lt, of b b'] by auto
    moreover have "same_off ws b' b = same_off ws b b'" by (auto simp: same_off_def)
    ultimately show ?thesis by (simp add: ket_def)
  qed
  finally show "apply_gate (QFT_adj ws) (fstate ws x b) b' = ket (set_reg ws (nat (x mod 2 ^ length ws)) b) b'" .
qed

lemma run_Nil [simp]: "run [] psi = psi"
  by (simp add: run_def)

lemma run_Cons [simp]: "run (g # c) psi = run c (apply_gate g psi)"
  by (simp add: run_def)

lemma run_append [simp]: "run (c @ d) psi = run d (run c psi)"
  by (simp add: run_def)

lemma scale_scale [simp]: "scale z (scale w psi) = scale (z * w) psi"
  by (simp add: scale_def mult.assoc)

lemma scale_one [simp]: "scale 1 psi = psi"
  by (simp add: scale_def)

lemma apply_gate_scale: "apply_gate g (scale z psi) = scale z (apply_gate g psi)"
proof (induction g arbitrary: psi)
  case (QFT ws)
  show ?case
    by (rule ext) (simp add: scale_def sum_distrib_left mult_ac)
next
  case (QFT_adj ws)
  show ?case
    by (rule ext) (simp add: scale_def sum_distrib_left mult_ac)
next
  case (Ctrl g cs)
  have "(\<lambda>b'. if list_all b' cs then scale z psi b' else 0)
      = scale z (\<lambda>b'. if list_all b' cs then psi b' else 0)"
    by (rule ext) (simp add: scale_def)
  then show ?case
    by (intro ext) (simp add: Ctrl.IH, simp add: scale_def)
qed (auto simp: scale_def fun_eq_iff)

lemma run_scale: "run c (scale z psi) = scale z (run c psi)"
  by (induction c arbitrary: psi) (simp_all add: apply_gate_scale)

subsection \<open>The rotations of \<open>sum_k\<close>\<close>

lemma sum_k_snoc:
  "sum_k k (ws @ [w]) = sum_k k ws @ [RZ (of_int k * pi / 2 ^ length ws) w]"
  by (simp add: sum_k_def nth_append)

lemma reg_value_snoc: "reg_value (ws @ [w]) b = 2 * reg_value ws b + (if b w then 1 else 0)"
  by (induction ws) (simp_all add: reg_value_Cons)

lemma sum_k_phase_step:
  "cis (gphase k n + 2 * pi * of_int k * real v / 2 ^ n)
     * (if bw then cis (of_int k * pi / 2 ^ n / 2) else cis (- (of_int k * pi / 2 ^ n) / 2))
   = cis (gphase k (Suc n) + 2 * pi * of_int k * real (2 * v + (if bw then 1 else 0)) / 2 ^ Suc n)"
proof -
  define g where "g = gphase k n"
  define a where "a = of_int k * pi / 2 ^ n"
  have s: "gphase k (Suc n) = g - a / 2" by (simp add: gphase_def g_def a_def)
  have t: "2 * pi * of_int k * real v / 2 ^ n = 2 * real v * a" by (simp add: a_def)
  have u: "2 * pi * of_int k * real (2 * v + (if bw then 1 else 0)) / 2 ^ Suc n
      = (2 * real v + (if bw then 1 else 0)) * a"
    by (simp add: a_def field_simps)
  have "cis (g + 2 * real v * a) * (if bw then cis (a / 2) else cis (- a / 2))
      = cis (g - a / 2 + (2 * real v + (if bw then 1 else 0)) * a)"
    by (simp add: cis_mult algebra_simps)
  then show ?thesis
    unfolding s t u g_def [symmetric] a_def [symmetric] .
qed

lemma run_sum_k:
  "run (sum_k k ws) psi =
     (\<lambda>b. cis (gphase k (length ws) + 2 * pi * of_int k * real (reg_value ws b) / 2 ^ length ws) * psi b)"
proof (induction ws rule: rev_induct)
  case Nil
  then show ?case by (simp add: sum_k_def gphase_def)
next
  case (snoc w ws)
  show ?case
  proof (rule ext)
    fix b
    have "run (sum_k k (ws @ [w])) psi b
      = (if b w then cis (of_int k * pi / 2 ^ length ws / 2) else cis (- (of_int k * pi / 2 ^ length ws) / 2))
        * (cis (gphase k (length ws) + 2 * pi * of_int k * real (reg_value ws b) / 2 ^ length ws) * psi b)"
      by (simp add: sum_k_snoc snoc.IH)
    also have "\<dots> = cis (gphase k (length ws) + 2 * pi * of_int k * real (reg_value ws b) / 2 ^ length ws)
        * (if b w then cis (of_int k * pi / 2 ^ length ws / 2) else cis (- (of_int k * pi / 2 ^ length ws) / 2))
        * psi b"
      by (simp add: mult_ac)
    also have "\<dots> = cis (gphase k (Suc (length ws))
          + 2 * pi * of_int k * real (2 * reg_value ws b + (if b w then 1 else 0)) / 2 ^ Suc (length ws)) * psi b"
      by (simp only: sum_k_phase_step)
    finally show "run (sum_k k (ws @ [w])) psi b =
      cis (gphase k (length (ws @ [w])) + 2 * pi * of_int k * real (reg_value (ws @ [w]) b) / 2 ^ length (ws @ [w])) * psi b"
      by (simp only: reg_value_snoc length_append_singleton)
  qed
qed

lemma run_rev_sum_k:
  "run (rev (sum_k k ws)) psi =
     (\<lambda>b. cis (gphase k (length ws) + 2 * pi * of_int k * real (reg_value ws b) / 2 ^ length ws) * psi b)"
proof (induction ws arbitrary: psi rule: rev_induct)
  case Nil
  then show ?case by (simp add: sum_k_def gphase_def)
next
  case (snoc w ws)
  show ?case
  proof (rule ext)
    fix b
    have "run (rev (sum_k k (ws @ [w]))) psi b
      = cis (gphase k (length ws) + 2 * pi * of_int k * real (reg_value ws b) / 2 ^ length ws)
        * ((if b w then cis (of_int k * pi / 2 ^ length ws / 2) else cis (- (of_int k * pi / 2 ^ length ws) / 2))
        * psi b)"
      by (simp add: sum_k_snoc snoc.IH)
    also have "\<dots> = cis (gphase k (length ws) + 2 * pi * of_int k * real (reg_value ws b) / 2 ^ length ws)
        * (if b w then cis (of_int k * pi / 2 ^ length ws / 2) else cis (- (of_int k * pi / 2 ^ length ws) / 2))
        * psi b"
      by (simp add: mult_ac)
    also have "\<dots> = cis (gphase k (Suc (length ws))
          + 2 * pi * of_int k * real (2 * reg_value ws b + (if b w then 1 else 0)) / 2 ^ Suc (length ws)) * psi b"
      by (simp only: sum_k_phase_step)
    finally show "run (rev (sum_k k (ws @ [w]))) psi b =
      cis (gphase k (length (ws @ [w])) + 2 * pi * of_int k * real (reg_value (ws @ [w]) b) / 2 ^ length (ws @ [w])) * psi b"
      by (simp only: reg_value_snoc length_append_singleton)
  qed
qed

text \<open>
  Claim C8, amended. For every constant \<open>k\<close> and every wire list, \<open>sum_k k wires\<close> is exactly
  one rotation per wire, the rotation on the wire of rank \<open>j\<close> from the top having angle
  \<open>k * pi / 2 ^ j\<close>; its adjoint is \<open>sum_k (- k) wires\<close> in reverse order (the same gates,
  last wire first), and acts on every state as \<open>sum_k (- k) wires\<close> does.
\<close>

theorem sum_k_rotations:
  "length (sum_k k wires) = length wires
   \<and> (\<forall>j<length wires. sum_k k wires ! j = RZ (of_int k * pi / 2 ^ j) (wires ! j))
   \<and> adjoint (sum_k k wires) = rev (sum_k (- k) wires)
   \<and> (\<forall>psi. run (adjoint (sum_k k wires)) psi = run (sum_k (- k) wires) psi)"
proof -
  have "run (adjoint (sum_k k wires)) psi = run (sum_k (- k) wires) psi" for psi
    by (simp only: adjoint_sum_k run_rev_sum_k run_sum_k)
  then show ?thesis
    by (simp add: sum_k_nth adjoint_sum_k sum_k_length)
qed

theorem sum_k_rotations_witness:
  "length (sum_k 3 [5, 7]) = 2
   \<and> sum_k 3 [5, 7] ! 1 = RZ (3 * pi / 2) 7
   \<and> adjoint (sum_k 3 [5, 7]) = rev (sum_k (- 3) [5, 7])
   \<and> run (adjoint (sum_k 3 [5, 7])) (ket (\<lambda>w. False)) = run (sum_k (- 3) [5, 7]) (ket (\<lambda>w. False))"
proof -
  note t = sum_k_rotations [of 3 "[5, 7]"]
  from t have 1: "length (sum_k 3 [5, 7]) = 2" by simp
  from t have "\<forall>j<length [5, 7::nat]. sum_k 3 [5, 7] ! j = RZ (of_int 3 * pi / 2 ^ j) ([5, 7] ! j)"
    by (rule conjunct1 [OF conjunct2])
  then have 2: "sum_k 3 [5, 7] ! 1 = RZ (3 * pi / 2) 7" by simp
  from t have 3: "adjoint (sum_k 3 [5, 7]) = rev (sum_k (- 3) [5, 7])"
    by (rule conjunct1 [OF conjunct2 [OF conjunct2]])
  from t have "\<forall>psi. run (adjoint (sum_k 3 [5, 7])) psi = run (sum_k (- 3) [5, 7]) psi"
    by (rule conjunct2 [OF conjunct2 [OF conjunct2]])
  then have 4: "run (adjoint (sum_k 3 [5, 7])) (ket (\<lambda>w. False)) = run (sum_k (- 3) [5, 7]) (ket (\<lambda>w. False))"
    by (rule spec)
  from 1 2 3 4 show ?thesis by (intro conjI)
qed

text \<open>As stated (the adjoint and \<open>sum_k (- k)\<close> are the same gate sequence) the claim fails
  on two wires.\<close>

theorem sum_k_adjoint_counterexample:
  "adjoint (sum_k 1 [0, 1]) \<noteq> sum_k (- 1) [0, 1]"
  by (simp add: sum_k_def adjoint_def upt_rec)

lemma phase_fstate:
  "(\<lambda>b'. cis (g + 2 * pi * of_int k * real (reg_value ws b') / 2 ^ length ws) * fstate ws x b b')
     = scale (cis g) (fstate ws (x + k) b)"
proof (rule ext)
  fix b'
  have "cis (g + 2 * pi * of_int k * real (reg_value ws b') / 2 ^ length ws)
       * cis (2 * pi * of_int x * real (reg_value ws b') / 2 ^ length ws)
     = cis g * cis (2 * pi * of_int (x + k) * real (reg_value ws b') / 2 ^ length ws)"
    by (simp add: cis_mult field_simps)
  then show "cis (g + 2 * pi * of_int k * real (reg_value ws b') / 2 ^ length ws) * fstate ws x b b'
     = scale (cis g) (fstate ws (x + k) b) b'"
    by (simp add: fstate_def scale_def)
qed

lemma sum_k_fstate:
  "run (sum_k k ws) (fstate ws x b) = scale (cis (gphase k (length ws))) (fstate ws (x + k) b)"
  by (simp only: run_sum_k phase_fstate)

lemma adjoint_sum_k_fstate:
  "run (adjoint (sum_k k ws)) (fstate ws x b) = scale (cis (gphase (- k) (length ws))) (fstate ws (x - k) b)"
  using phase_fstate [of "gphase (- k) (length ws)" "- k" ws x b]
  by (simp only: adjoint_sum_k run_rev_sum_k) simp

subsection \<open>Bit flips on basis states\<close>

lemma PauliX_ket: "apply_gate (PauliX w) (ket b) = ket (b(w := \<not> b w))"
  by (rule ext) (auto simp: ket_def fun_eq_iff)

lemma CNOT_ket:
  "c \<noteq> t \<Longrightarrow> apply_gate (CNOT c t) (ket b) = ket (if b c then b(t := \<not> b t) else b)"
  by (rule ext) (auto simp: ket_def fun_eq_iff)

lemma SWAP_ket: "apply_gate (SWAP x y) (ket b) = ket (b(x := b y, y := b x))"
  by (rule ext) (auto simp: ket_def fun_eq_iff)

subsection \<open>Gates act locally\<close>

lemma local_predD:
  "local_pred ws P \<Longrightarrow> (\<And>w. w \<notin> set ws \<Longrightarrow> b w = b' w) \<Longrightarrow> P b = P b'"
  unfolding local_pred_def by blast

lemma local_pred_mono: "local_pred ws P \<Longrightarrow> set vs \<subseteq> set ws \<Longrightarrow> local_pred vs P"
  unfolding local_pred_def by blast

lemma local_pred_upd: "local_pred ws P \<Longrightarrow> w \<in> set ws \<Longrightarrow> P (b(w := v)) = P b"
  by (rule local_predD) auto

lemma local_pred_set_reg: "local_pred ws P \<Longrightarrow> P (set_reg ws x b) = P b"
  by (rule local_predD) auto

lemma apply_gate_vanishes:
  "local_pred (gate_wires g) P \<Longrightarrow> vanishes_off P psi \<Longrightarrow> vanishes_off P (apply_gate g psi)"
proof (induction g arbitrary: psi)
  case (RZ theta w)
  then show ?case by (simp add: vanishes_off_def)
next
  case (PauliX w)
  then show ?case using local_pred_upd [of "[w]" P w] by (simp add: vanishes_off_def)
next
  case (CNOT c t)
  then show ?case using local_pred_upd [of "[c, t]" P t] by (simp add: vanishes_off_def)
next
  case (SWAP x y)
  have "P (b(x := b y, y := b x)) = P b" for b
    using SWAP(1) by (rule local_predD) auto
  with SWAP show ?case by (simp add: vanishes_off_def)
next
  case (QFT ws)
  then show ?case using local_pred_set_reg [of ws P] by (simp add: vanishes_off_def)
next
  case (QFT_adj ws)
  then show ?case using local_pred_set_reg [of ws P] by (simp add: vanishes_off_def)
next
  case (Ctrl g cs)
  have l: "local_pred (gate_wires g) P"
    using Ctrl.prems(1) by (rule local_pred_mono) auto
  have "vanishes_off P (\<lambda>b'. if list_all b' cs then psi b' else 0)"
    using Ctrl.prems(2) by (simp add: vanishes_off_def)
  from Ctrl.IH [OF l this] Ctrl.prems(2) show ?case
    by (simp add: vanishes_off_def)
qed

lemma apply_gate_zero: "apply_gate g (\<lambda>b. 0) = (\<lambda>b. 0)"
  using apply_gate_scale [of g 0 "\<lambda>b. 0"] by (simp add: scale_def)

lemma run_vanishes:
  "local_pred (circuit_wires c) P \<Longrightarrow> vanishes_off P psi \<Longrightarrow> vanishes_off P (run c psi)"
proof (induction c arbitrary: psi)
  case Nil
  then show ?case by simp
next
  case (Cons g c)
  have "local_pred (gate_wires g) P" "local_pred (circuit_wires c) P"
    using Cons.prems(1) by (auto intro: local_pred_mono)
  with Cons show ?case by (simp add: apply_gate_vanishes)
qed

subsection \<open>Controls on a wire with a definite value\<close>

lemma local_pred_wire: "q \<notin> set ws \<Longrightarrow> local_pred ws (\<lambda>b. b q = v)"
  by (auto simp: local_pred_def)

lemma Ctrl_definite:
  assumes "definite q v psi" "q \<notin> set (gate_wires g)"
  shows "apply_gate (Ctrl g [q]) psi = (if v then apply_gate g psi else psi)"
proof (cases v)
  case True
  have p: "(\<lambda>b'. if b' q then psi b' else 0) = psi"
    using assms(1) True by (auto simp: definite_def vanishes_off_def fun_eq_iff)
  have "vanishes_off (\<lambda>b. b q = v) (apply_gate g psi)"
    using assms by (intro apply_gate_vanishes local_pred_wire) (simp_all add: definite_def)
  then have "apply_gate g psi b = 0" if "\<not> b q" for b
    using that True by (simp add: vanishes_off_def)
  moreover have "psi b = 0" if "\<not> b q" for b
    using that True assms(1) by (simp add: definite_def vanishes_off_def)
  ultimately show ?thesis using True by (auto simp: p fun_eq_iff)
next
  case False
  have p: "(\<lambda>b'. if b' q then psi b' else 0) = (\<lambda>b. 0)"
    using assms(1) False by (auto simp: definite_def vanishes_off_def fun_eq_iff)
  have "psi b = 0" if "b q" for b
    using that False assms(1) by (simp add: definite_def vanishes_off_def)
  then show ?thesis using False by (auto simp: p apply_gate_zero fun_eq_iff)
qed

lemma definite_apply_gate:
  "definite q v psi \<Longrightarrow> q \<notin> set (gate_wires g) \<Longrightarrow> definite q v (apply_gate g psi)"
  unfolding definite_def by (intro apply_gate_vanishes local_pred_wire)

lemma definite_run:
  "definite q v psi \<Longrightarrow> q \<notin> set (circuit_wires c) \<Longrightarrow> definite q v (run c psi)"
  unfolding definite_def by (intro run_vanishes local_pred_wire)

lemma run_Ctrl_definite:
  assumes "definite q v psi" "q \<notin> set (circuit_wires c)"
  shows "run (map (\<lambda>g. Ctrl g [q]) c) psi = (if v then run c psi else psi)"
  using assms
proof (induction c arbitrary: psi)
  case Nil
  then show ?case by simp
next
  case (Cons g c)
  then have q: "q \<notin> set (gate_wires g)" "q \<notin> set (circuit_wires c)" by auto
  show ?case
  proof (cases v)
    case True
    have "definite q v (apply_gate g psi)" using Cons.prems(1) q(1) by (rule definite_apply_gate)
    from Cons.IH [OF this q(2)] True show ?thesis
      by (simp add: Ctrl_definite [OF Cons.prems(1) q(1)] del: apply_gate.simps)
  next
    case False
    from Cons.IH [OF Cons.prems(1) q(2)] False show ?thesis
      by (simp add: Ctrl_definite [OF Cons.prems(1) q(1)] del: apply_gate.simps)
  qed
qed

lemma definite_ket [simp]: "definite q (b q) (ket b)"
  by (auto simp: definite_def vanishes_off_def ket_def)

lemma definite_fstate: "q \<notin> set ws \<Longrightarrow> definite q (b q) (fstate ws x b)"
  by (auto simp: definite_def vanishes_off_def fstate_def same_off_def)

lemma definite_scale: "definite q v psi \<Longrightarrow> definite q v (scale z psi)"
  by (auto simp: definite_def vanishes_off_def scale_def)

subsection \<open>Equality up to a global phase\<close>

lemma phase_eq_refl [simp]: "phase_eq psi psi"
  unfolding phase_eq_def by (rule exI [of _ 1]) simp

lemma phase_eq_scale_cis [simp]: "phase_eq (scale (cis t) psi) psi"
  unfolding phase_eq_def by (rule exI [of _ "cis t"]) simp

lemma phase_eq_trans: "phase_eq psi phi \<Longrightarrow> phase_eq phi chi \<Longrightarrow> phase_eq psi chi"
  unfolding phase_eq_def
proof (elim exE conjE)
  fix z w assume "cmod z = 1" "psi = scale z phi" "cmod w = 1" "phi = scale w chi"
  then have "cmod (z * w) = 1 \<and> psi = scale (z * w) chi" by (simp add: norm_mult)
  then show "\<exists>z. cmod z = 1 \<and> psi = scale z chi" by blast
qed

lemma phase_eq_run: "phase_eq psi phi \<Longrightarrow> phase_eq (run c psi) (run c phi)"
  unfolding phase_eq_def by (auto simp: run_scale)

lemma phase_eq_step:
  "phase_eq psi phi \<Longrightarrow> phase_eq (run c phi) chi \<Longrightarrow> phase_eq (run c psi) chi"
  using phase_eq_run phase_eq_trans by blast

lemma phase_eq_yields: "phase_eq psi (ket b) \<Longrightarrow> yields psi b"
  by (auto simp: phase_eq_def yields_def scale_def ket_def norm_mult)

lemma phase_eq_definite: "phase_eq psi phi \<Longrightarrow> definite q v phi \<Longrightarrow> definite q v psi"
  by (auto simp: phase_eq_def definite_scale)

subsection \<open>The constant adder on a Fourier state\<close>

lemma XCX_ket:
  "w \<noteq> aux \<Longrightarrow>
   run [PauliX w, CNOT w aux, PauliX w] (ket b) = ket (b(aux := (b aux \<noteq> (\<not> b w))))"
proof -
  assume h: "w \<noteq> aux"
  let ?b1 = "b(w := \<not> b w)"
  let ?b2 = "if ?b1 w then ?b1(aux := \<not> ?b1 aux) else ?b1"
  have "run [PauliX w, CNOT w aux, PauliX w] (ket b) = ket (?b2(w := \<not> ?b2 w))"
    by (simp only: run_Cons run_Nil PauliX_ket CNOT_ket [OF h])
  also have "?b2(w := \<not> ?b2 w) = b(aux := (b aux \<noteq> (\<not> b w)))"
    using h by (auto simp: fun_eq_iff)
  finally show ?thesis .
qed

lemma set_reg_msb_int:
  assumes "distinct ws" "ws \<noteq> []" "0 \<le> v" "v < 2 ^ length ws"
  shows "set_reg ws (nat v) b (ws ! 0) = msb (length ws) v"
proof -
  have "nat v < 2 ^ length ws" using assms(3,4) by (simp add: nat_less_iff)
  from set_reg_msb [OF assms(1,2) this, of b] assms(3) show ?thesis
    by (simp add: msb_def le_nat_iff)
qed

lemma read_msb:
  assumes "distinct ws" "ws \<noteq> []" "aux \<notin> set ws"
  shows "phase_eq (run [QFT_adj ws, CNOT (ws ! 0) aux, QFT ws] (fstate ws x b))
     (fstate ws (x mod 2 ^ length ws) (b(aux := (b aux \<noteq> msb (length ws) (x mod 2 ^ length ws)))))"
proof -
  let ?v = "x mod 2 ^ length ws"
  let ?b1 = "set_reg ws (nat ?v) b"
  have w0: "ws ! 0 \<noteq> aux" using assms(2,3) by (metis nth_mem length_greater_0_conv)
  have m: "?b1 (ws ! 0) = msb (length ws) ?v"
    using assms by (intro set_reg_msb_int) simp_all
  have a: "?b1 aux = b aux" using assms(3) by simp
  have "(if ?b1 (ws ! 0) then ?b1(aux := \<not> ?b1 aux) else ?b1)
      = ?b1(aux := (b aux \<noteq> msb (length ws) ?v))"
    using m a by (auto simp: fun_eq_iff)
  also have "\<dots> = set_reg ws (nat ?v) (b(aux := (b aux \<noteq> msb (length ws) ?v)))"
    using assms(3) by (simp add: set_reg_upd_commute)
  finally have c: "apply_gate (CNOT (ws ! 0) aux) (ket ?b1)
      = ket (set_reg ws (nat ?v) (b(aux := (b aux \<noteq> msb (length ws) ?v))))"
    by (simp only: CNOT_ket [OF w0])
  have "nat ?v < 2 ^ length ws" by (simp add: nat_less_iff)
  then have r: "int (reg_value ws (set_reg ws (nat ?v) b')) = ?v" for b'
    using assms(1) by (simp add: reg_value_set_reg)
  have "run [QFT_adj ws, CNOT (ws ! 0) aux, QFT ws] (fstate ws x b)
      = fstate ws ?v (b(aux := (b aux \<noteq> msb (length ws) ?v)))"
    using assms(1) by (simp add: QFT_adj_fstate c QFT_ket r del: apply_gate.simps)
  then show ?thesis by simp
qed

lemma read_msb_flipped:
  assumes "distinct ws" "ws \<noteq> []" "aux \<notin> set ws"
  shows "phase_eq
     (run [QFT_adj ws, PauliX (ws ! 0), CNOT (ws ! 0) aux, PauliX (ws ! 0), QFT ws] (fstate ws x b))
     (fstate ws (x mod 2 ^ length ws)
        (b(aux := (b aux \<noteq> (\<not> msb (length ws) (x mod 2 ^ length ws))))))"
proof -
  let ?v = "x mod 2 ^ length ws"
  let ?b1 = "set_reg ws (nat ?v) b"
  have w0: "ws ! 0 \<noteq> aux" using assms(2,3) by (metis nth_mem length_greater_0_conv)
  have m: "?b1 (ws ! 0) = msb (length ws) ?v"
    using assms by (intro set_reg_msb_int) simp_all
  have a: "?b1 aux = b aux" using assms(3) by simp
  have "run [PauliX (ws ! 0), CNOT (ws ! 0) aux, PauliX (ws ! 0)] (ket ?b1)
      = ket (?b1(aux := (b aux \<noteq> (\<not> msb (length ws) ?v))))"
    using XCX_ket [OF w0, of ?b1] unfolding m a .
  also have "?b1(aux := (b aux \<noteq> (\<not> msb (length ws) ?v)))
      = set_reg ws (nat ?v) (b(aux := (b aux \<noteq> (\<not> msb (length ws) ?v))))"
    using assms(3) by (simp add: set_reg_upd_commute)
  finally have c: "run [PauliX (ws ! 0), CNOT (ws ! 0) aux, PauliX (ws ! 0)] (ket ?b1)
      = ket (set_reg ws (nat ?v) (b(aux := (b aux \<noteq> (\<not> msb (length ws) ?v)))))" .
  have "nat ?v < 2 ^ length ws" by (simp add: nat_less_iff)
  then have r: "int (reg_value ws (set_reg ws (nat ?v) b')) = ?v" for b'
    using assms(1) by (simp add: reg_value_set_reg)
  have "run [QFT_adj ws, PauliX (ws ! 0), CNOT (ws ! 0) aux, PauliX (ws ! 0), QFT ws] (fstate ws x b)
      = apply_gate (QFT ws) (run [PauliX (ws ! 0), CNOT (ws ! 0) aux, PauliX (ws ! 0)]
           (apply_gate (QFT_adj ws) (fstate ws x b)))"
    by (simp del: apply_gate.simps)
  also have "\<dots> = fstate ws ?v (b(aux := (b aux \<noteq> (\<not> msb (length ws) ?v))))"
    using assms(1) by (simp only: QFT_adj_fstate c QFT_ket r fstate_set_reg)
  finally show ?thesis by simp
qed

lemma ctrl_sum_k_fstate:
  assumes "aux \<notin> set ws"
  shows "phase_eq (run (map (\<lambda>g. Ctrl g [aux]) (sum_k N ws)) (fstate ws x b))
     (fstate ws (if b aux then x + N else x) b)"
proof -
  have d: "definite aux (b aux) (fstate ws x b)" using assms by (rule definite_fstate)
  have q: "aux \<notin> set (circuit_wires (sum_k N ws))" using assms by simp
  show ?thesis
    by (simp add: run_Ctrl_definite [OF d q] sum_k_fstate)
qed

lemma adder_core_fstate:
  assumes "distinct ws" "ws \<noteq> []" "aux \<notin> set ws"
  shows "phase_eq (run (adder_core k N ws aux) (fstate ws x b))
     (fstate ws (adder_v2 k N (length ws) x (b aux))
        (b(aux := adder_c2 k N (length ws) x (b aux))))"
proof -
  let ?n = "length ws"
  let ?v1 = "adder_v1 k N ?n x"
  let ?c1 = "adder_c1 k N ?n x (b aux)"
  let ?v2 = "adder_v2 k N ?n x (b aux)"
  let ?v3 = "adder_v3 k N ?n x (b aux)"
  let ?c2 = "adder_c2 k N ?n x (b aux)"
  let ?b1 = "b(aux := ?c1)"
  let ?b2 = "b(aux := ?c2)"
  have s1: "phase_eq (run (sum_k k ws) (fstate ws x b)) (fstate ws (x + k) b)"
    by (simp add: sum_k_fstate)
  have s2: "phase_eq (run (adjoint (sum_k N ws)) (fstate ws (x + k) b)) (fstate ws (x + k - N) b)"
    by (simp add: adjoint_sum_k_fstate)
  have s3: "phase_eq (run [QFT_adj ws, CNOT (ws ! 0) aux, QFT ws] (fstate ws (x + k - N) b))
      (fstate ws ?v1 ?b1)"
    using read_msb [OF assms, of "x + k - N" b] by (simp add: adder_v1_def adder_c1_def)
  have s4: "phase_eq (run (map (\<lambda>g. Ctrl g [aux]) (sum_k N ws)) (fstate ws ?v1 ?b1))
      (fstate ws ?v2 ?b1)"
  proof -
    have "fstate ws (if ?c1 then ?v1 + N else ?v1) ?b1 = fstate ws ?v2 ?b1"
      by (simp add: adder_v2_def fstate_mod)
    with ctrl_sum_k_fstate [OF assms(3), of N ?v1 ?b1] show ?thesis by simp
  qed
  have s5: "phase_eq (run (adjoint (sum_k k ws)) (fstate ws ?v2 ?b1)) (fstate ws (?v2 - k) ?b1)"
    by (simp add: adjoint_sum_k_fstate)
  have s6: "phase_eq
      (run [QFT_adj ws, PauliX (ws ! 0), CNOT (ws ! 0) aux, PauliX (ws ! 0), QFT ws]
         (fstate ws (?v2 - k) ?b1))
      (fstate ws ?v3 ?b2)"
    using read_msb_flipped [OF assms, of "?v2 - k" ?b1]
    by (simp add: adder_v3_def adder_c2_def)
  have s7: "phase_eq (run (sum_k k ws) (fstate ws ?v3 ?b2)) (fstate ws ?v2 ?b2)"
  proof -
    have "(?v3 + k) mod 2 ^ ?n = ?v2 mod 2 ^ ?n"
      by (simp add: adder_v3_def mod_simps)
    then have "fstate ws (?v3 + k) ?b2 = fstate ws ?v2 ?b2"
      by (metis fstate_mod)
    then show ?thesis by (simp add: sum_k_fstate)
  qed
  show ?thesis
    unfolding adder_core_def run_append
    by (intro phase_eq_step [OF _ s7] phase_eq_step [OF _ s6] phase_eq_step [OF _ s5]
          phase_eq_step [OF _ s4] phase_eq_step [OF _ s3] phase_eq_step [OF _ s2] s1)
qed

lemma int_mod_eqI: "0 \<le> r \<Longrightarrow> r < (m::int) \<Longrightarrow> m dvd (v - r) \<Longrightarrow> v mod m = r"
  by (metis mod_eq_dvd_iff mod_pos_pos_trivial)

lemma adder_in_range:
  assumes "N \<le> 2 ^ (n - 1)" "0 < n" "0 \<le> x" "x < N" "0 \<le> k" "k < N"
  shows "adder_v2 k N n x False = (x + k) mod N \<and> adder_c2 k N n x False = False"
proof -
  define P :: int where "P = 2 ^ (n - 1)"
  have M: "(2::int) ^ n = 2 * P"
    using assms(2) by (cases n) (simp_all add: P_def)
  have NP: "N \<le> P" using assms(1) by (simp add: P_def)
  show ?thesis
  proof (cases "x + k < N")
    case True
    have v1: "adder_v1 k N n x = x + k - N + 2 * P"
      unfolding adder_v1_def M using True assms NP by (intro int_mod_eqI) simp_all
    have c1: "adder_c1 k N n x False"
      unfolding adder_c1_def v1 msb_def P_def [symmetric] using assms NP by simp
    have v2: "adder_v2 k N n x False = x + k"
      unfolding adder_v2_def v1 M using c1 True assms NP by (simp, intro int_mod_eqI) simp_all
    have v3: "adder_v3 k N n x False = x"
      unfolding adder_v3_def v2 M using assms NP by (intro int_mod_eqI) simp_all
    have c2: "\<not> adder_c2 k N n x False"
      unfolding adder_c2_def v3 msb_def P_def [symmetric] using c1 assms NP by simp
    have "(x + k) mod N = x + k" using True assms by simp
    with v2 c2 show ?thesis by simp
  next
    case False
    have v1: "adder_v1 k N n x = x + k - N"
      unfolding adder_v1_def M using False assms NP by (intro int_mod_eqI) simp_all
    have c1: "\<not> adder_c1 k N n x False"
      unfolding adder_c1_def v1 msb_def P_def [symmetric] using assms NP by simp
    have v2: "adder_v2 k N n x False = x + k - N"
      unfolding adder_v2_def using c1 v1 by simp
    have v3: "adder_v3 k N n x False = x - N + 2 * P"
      unfolding adder_v3_def v2 M using assms NP by (intro int_mod_eqI) simp_all
    have c2: "\<not> adder_c2 k N n x False"
      unfolding adder_c2_def v3 msb_def P_def [symmetric] using c1 assms NP by simp
    have "(x + k) mod N = x + k - N"
      using False assms by (intro int_mod_eqI) simp_all
    with v2 c2 show ?thesis by simp
  qed
qed

lemma adder_v2_range: "0 \<le> adder_v2 k N n x c \<and> adder_v2 k N n x c < 2 ^ n"
  by (simp add: adder_v2_def adder_v1_def)

lemma add_in_k_N_standard:
  assumes "distinct ws" "ws \<noteq> []" "aux \<notin> set ws"
  shows "phase_eq (run ([QFT ws] @ adder_core k N ws aux @ [QFT_adj ws]) (ket b))
     (ket (set_reg ws (nat (adder_v2 k N (length ws) (int (reg_value ws b)) (b aux)))
        (b(aux := adder_c2 k N (length ws) (int (reg_value ws b)) (b aux)))))"
proof -
  let ?x = "int (reg_value ws b)"
  let ?v2 = "adder_v2 k N (length ws) ?x (b aux)"
  let ?b2 = "b(aux := adder_c2 k N (length ws) ?x (b aux))"
  have s1: "run [QFT ws] (ket b) = fstate ws ?x b"
    using assms(1) by (simp add: QFT_ket del: apply_gate.simps)
  have s2: "phase_eq (run (adder_core k N ws aux) (fstate ws ?x b)) (fstate ws ?v2 ?b2)"
    using assms by (rule adder_core_fstate)
  have "?v2 mod 2 ^ length ws = ?v2"
    using adder_v2_range [of k N "length ws" ?x "b aux"] by simp
  then have s3: "phase_eq (run [QFT_adj ws] (fstate ws ?v2 ?b2)) (ket (set_reg ws (nat ?v2) ?b2))"
    using assms(1) by (simp add: QFT_adj_fstate del: apply_gate.simps)
  show ?thesis
    unfolding run_append s1
    by (intro phase_eq_step [OF _ s3] s2)
qed

lemma yields_unique: "yields psi b \<Longrightarrow> yields psi b' \<Longrightarrow> b = b'"
  unfolding yields_def by (metis norm_zero zero_neq_one)

subsection \<open>The loops of controlled adders\<close>

lemma ctrl_adders_fstate:
  assumes "distinct ext" "ext \<noteq> []" "aux \<notin> set ext"
    and "0 < N" "N \<le> 2 ^ (length ext - 1)" "\<not> b aux"
    and "\<forall>i\<in>set is. wires_a ! i \<notin> insert aux (set ext)"
    and "0 \<le> x" "x < N"
  shows "phase_eq
     (run (concat (map (\<lambda>i. map (\<lambda>g. Ctrl g [wires_a ! i]) (adder_core (weight i mod N) N ext aux)) is))
        (fstate ext x b))
     (fstate ext ((x + (\<Sum>i\<leftarrow>is. if b (wires_a ! i) then weight i else 0)) mod N) b)"
  using assms(7-9)
proof (induction "is" arbitrary: x)
  case Nil
  then show ?case by simp
next
  case (Cons i "is")
  let ?q = "wires_a ! i"
  let ?k = "weight i mod N"
  let ?x' = "(x + (if b ?q then weight i else 0)) mod N"
  have q: "?q \<notin> set ext" "?q \<noteq> aux" using Cons.prems(1) by auto
  have n: "0 < length ext" using assms(2) by simp
  have d: "definite ?q (b ?q) (fstate ext x b)" using q(1) by (rule definite_fstate)
  have cw: "?q \<notin> set (circuit_wires (adder_core ?k N ext aux))"
    using q assms(2) by (simp add: set_circuit_wires_adder_core)
  have head: "phase_eq (run (map (\<lambda>g. Ctrl g [?q]) (adder_core ?k N ext aux)) (fstate ext x b))
      (fstate ext ?x' b)"
  proof (cases "b ?q")
    case True
    have k: "0 \<le> ?k" "?k < N" using assms(4) by simp_all
    have ar: "adder_v2 ?k N (length ext) x False = (x + ?k) mod N
        \<and> adder_c2 ?k N (length ext) x False = False"
      using assms(5) n Cons.prems(2,3) k by (rule adder_in_range)
    have "b(aux := False) = b" using assms(6) by (auto simp: fun_eq_iff)
    with adder_core_fstate [OF assms(1-3), of ?k N x b] ar assms(6)
    have "phase_eq (run (adder_core ?k N ext aux) (fstate ext x b)) (fstate ext ((x + ?k) mod N) b)"
      by simp
    moreover have "(x + ?k) mod N = ?x'" using True by (simp add: mod_simps)
    ultimately show ?thesis
      using True by (simp add: run_Ctrl_definite [OF d cw])
  next
    case False
    have "?x' = x" using False Cons.prems(2,3) by simp
    then show ?thesis using False by (simp add: run_Ctrl_definite [OF d cw])
  qed
  have x': "0 \<le> ?x'" "?x' < N" using assms(4) by simp_all
  have r: "\<forall>i\<in>set is. wires_a ! i \<notin> insert aux (set ext)" using Cons.prems(1) by simp
  have "(?x' + (\<Sum>i\<leftarrow>is. if b (wires_a ! i) then weight i else 0)) mod N
      = (x + (\<Sum>i\<leftarrow>i # is. if b (wires_a ! i) then weight i else 0)) mod N"
    by (simp add: mod_simps add.assoc)
  with Cons.IH [OF r x'] have tail: "phase_eq
     (run (concat (map (\<lambda>i. map (\<lambda>g. Ctrl g [wires_a ! i]) (adder_core (weight i mod N) N ext aux)) is))
        (fstate ext ?x' b))
     (fstate ext ((x + (\<Sum>i\<leftarrow>i # is. if b (wires_a ! i) then weight i else 0)) mod N) b)"
    by simp
  show ?case
    using phase_eq_step [OF head tail] by simp
qed

lemma reg_value_sum_list:
  "int (reg_value ws b) = (\<Sum>i\<leftarrow>[0..<length ws]. if b (ws ! i) then 2 ^ (length ws - 1 - i) else 0)"
proof (induction ws)
  case Nil
  then show ?case by simp
next
  case (Cons w ws)
  have "[0..<Suc (length ws)] = 0 # [Suc 0..<Suc (length ws)]"
    by (rule upt_conv_Cons) simp
  then have "[0..<length (w # ws)] = 0 # map Suc [0..<length ws]"
    by (simp only: map_Suc_upt list.size) simp
  then have "(\<Sum>i\<leftarrow>[0..<length (w # ws)]. if b ((w # ws) ! i) then 2 ^ (length (w # ws) - 1 - i) else 0)
      = (if b w then 2 ^ length ws else 0)
        + (\<Sum>i\<leftarrow>[0..<length ws]. if b (ws ! i) then 2 ^ (length ws - 1 - i) else (0::int))"
    by (simp add: comp_def cong: if_cong)
  with Cons show ?case by (simp add: reg_value_Cons)
qed

lemma reg_value_sum_list_scaled:
  "k * int (reg_value ws b) = (\<Sum>i\<leftarrow>[0..<length ws]. if b (ws ! i) then k * 2 ^ (length ws - 1 - i) else 0)"
proof -
  have "(\<Sum>i\<leftarrow>[0..<length ws]. if b (ws ! i) then k * 2 ^ (length ws - 1 - i) else 0)
      = (\<Sum>i\<leftarrow>[0..<length ws]. k * (if b (ws ! i) then 2 ^ (length ws - 1 - i) else 0))"
    by (rule arg_cong [of _ _ sum_list]) simp
  also have "\<dots> = k * int (reg_value ws b)"
    by (simp only: sum_list_const_mult reg_value_sum_list)
  finally show ?thesis by simp
qed

text \<open>A Fourier transform of an extended register, a loop of controlled adders and the
  inverse transform: the shape shared by \<open>add_in_N\<close> and \<open>mult_out_k_N\<close>.\<close>

lemma weighted_sum_circuit:
  assumes "distinct (s # wires_b)" "aux \<notin> set (s # wires_b)"
    and "set wires_a \<inter> insert aux (set (s # wires_b)) = {}"
    and "0 < N" "N \<le> 2 ^ length wires_b"
    and "int (reg_value wires_b b) < N" "\<not> b s" "\<not> b aux"
  shows "phase_eq
     (run ([QFT (s # wires_b)]
        @ concat (map (\<lambda>i. map (\<lambda>g. Ctrl g [wires_a ! i]) (adder_core (weight i mod N) N (s # wires_b) aux))
            [0..<length wires_a])
        @ [QFT_adj (s # wires_b)]) (ket b))
     (ket (set_reg wires_b
        (nat ((int (reg_value wires_b b)
            + (\<Sum>i\<leftarrow>[0..<length wires_a]. if b (wires_a ! i) then weight i else 0)) mod N)) b))"
proof -
  let ?ext = "s # wires_b"
  let ?x = "int (reg_value wires_b b)"
  let ?r = "(?x + (\<Sum>i\<leftarrow>[0..<length wires_a]. if b (wires_a ! i) then weight i else 0)) mod N"
  have rv: "reg_value ?ext b = reg_value wires_b b" using assms(7) by (simp add: reg_value_Cons)
  have s1: "run [QFT ?ext] (ket b) = fstate ?ext ?x b"
    using assms(1) by (simp add: QFT_ket rv del: apply_gate.simps)
  have ctl: "\<forall>i\<in>set [0..<length wires_a]. wires_a ! i \<notin> insert aux (set ?ext)"
    using assms(3) by (rule disjoint_nth)
  have s2: "phase_eq
     (run (concat (map (\<lambda>i. map (\<lambda>g. Ctrl g [wires_a ! i]) (adder_core (weight i mod N) N ?ext aux))
            [0..<length wires_a])) (fstate ?ext ?x b))
     (fstate ?ext ?r b)"
    using assms(1) _ assms(2,4) _ assms(8) ctl _ assms(6)
    by (rule ctrl_adders_fstate) (use assms(5) in simp_all)
  have r: "0 \<le> ?r" "?r < N" using assms(4) by simp_all
  then have r2: "?r < 2 ^ length wires_b" using assms(5) by linarith
  moreover have "(2::int) ^ length wires_b \<le> 2 ^ length ?ext" by simp
  ultimately have "?r < 2 ^ length ?ext" by linarith
  then have m: "?r mod 2 ^ length ?ext = ?r" using r(1) by simp
  have "nat ?r div 2 ^ length wires_b = 0"
    using r r2 by (simp add: nat_less_iff)
  then have "set_reg ?ext (nat ?r) b = (set_reg wires_b (nat ?r) b)(s := False)" by simp
  also have "\<dots> = set_reg wires_b (nat ?r) b"
    using assms(1,7) by (auto simp: fun_eq_iff)
  finally have sr: "set_reg ?ext (nat ?r) b = set_reg wires_b (nat ?r) b" .
  have "apply_gate (QFT_adj ?ext) (fstate ?ext ?r b) = ket (set_reg ?ext (nat (?r mod 2 ^ length ?ext)) b)"
    using assms(1) by (rule QFT_adj_fstate)
  then have "run [QFT_adj ?ext] (fstate ?ext ?r b) = ket (set_reg wires_b (nat ?r) b)"
    unfolding m sr by (simp only: run_Cons run_Nil)
  then have s3: "phase_eq (run [QFT_adj ?ext] (fstate ?ext ?r b)) (ket (set_reg wires_b (nat ?r) b))"
    by simp
  show ?thesis
    unfolding run_append s1
    by (intro phase_eq_step [OF _ s3] s2)
qed

subsection \<open>The adjoint circuit undoes the circuit\<close>

lemma QFT_fourier: "apply_gate (QFT ws) psi = fourier 1 ws psi"
  by (simp add: fourier_def)

lemma QFT_adj_fourier: "apply_gate (QFT_adj ws) psi = fourier (- 1) ws psi"
  by (simp add: fourier_def)

lemma dvd_diff_less_iff:
  assumes "x < M" "v < M" "s = 1 \<or> s = - 1"
  shows "int M dvd s * (int x - int v) \<longleftrightarrow> x = v"
proof
  assume "int M dvd s * (int x - int v)"
  then have "int M dvd (int x - int v)" using assms(3) by (auto simp: dvd_diff_commute)
  then have "int x mod int M = int v mod int M" by (simp add: mod_eq_dvd_iff)
  then show "x = v" using assms by (simp add: zmod_int [symmetric])
next
  assume "x = v" then show "int M dvd s * (int x - int v)" by simp
qed

lemma fourier_inverse:
  assumes "distinct ws" "s = 1 \<or> s = - 1"
  shows "fourier (- s) ws (fourier s ws psi) = psi"
proof (rule ext)
  fix b
  let ?n = "length ws"
  let ?M = "(2::nat) ^ length ws"
  let ?v = "reg_value ws b"
  let ?c = "complex_of_real (sqrt (2 ^ ?n))"
  have M: "0 < ?M" by simp
  have v: "?v < ?M" by (rule reg_value_less)
  have "complex_of_real (sqrt (2 ^ ?n) * sqrt (2 ^ ?n)) = of_nat ?M" by simp
  then have sq: "?c * ?c = of_nat ?M" by (simp only: of_real_mult)
  have inner: "fourier s ws psi (set_reg ws y b)
      = (\<Sum>x<?M. cis (of_int s * (2 * pi * real x * real y / 2 ^ ?n)) * psi (set_reg ws x b)) / ?c"
    if "y < ?M" for y
    using that assms(1) by (simp add: fourier_def reg_value_set_reg)
  have tm: "cis (of_int (- s) * (2 * pi * real y * real ?v / 2 ^ ?n))
        * (cis (of_int s * (2 * pi * real x * real y / 2 ^ ?n)) * psi (set_reg ws x b))
      = cis (2 * pi * real y * of_int (s * (int x - int ?v)) / real ?M) * psi (set_reg ws x b)" for x y
  proof -
    have "of_int (- s) * (2 * pi * real y * real ?v / 2 ^ ?n) + of_int s * (2 * pi * real x * real y / 2 ^ ?n)
        = 2 * pi * real y * of_int (s * (int x - int ?v)) / real ?M"
      by (simp add: field_simps)
    then show ?thesis by (simp only: mult.assoc [symmetric] cis_mult)
  qed
  have "fourier (- s) ws (fourier s ws psi) b
      = (\<Sum>y<?M. cis (of_int (- s) * (2 * pi * real y * real ?v / 2 ^ ?n))
            * ((\<Sum>x<?M. cis (of_int s * (2 * pi * real x * real y / 2 ^ ?n)) * psi (set_reg ws x b)) / ?c)) / ?c"
    unfolding fourier_def [of "- s"] by (simp add: inner)
  also have "\<dots> = (\<Sum>y<?M. \<Sum>x<?M. cis (of_int (- s) * (2 * pi * real y * real ?v / 2 ^ ?n))
            * (cis (of_int s * (2 * pi * real x * real y / 2 ^ ?n)) * psi (set_reg ws x b))) / (?c * ?c)"
    by (simp add: sum_distrib_left sum_divide_distrib)
  also have "\<dots> = (\<Sum>y<?M. \<Sum>x<?M.
        cis (2 * pi * real y * of_int (s * (int x - int ?v)) / real ?M) * psi (set_reg ws x b)) / of_nat ?M"
    by (simp only: tm sq)
  also have "(\<Sum>y<?M. \<Sum>x<?M.
        cis (2 * pi * real y * of_int (s * (int x - int ?v)) / real ?M) * psi (set_reg ws x b))
      = (\<Sum>x<?M. \<Sum>y<?M.
        cis (2 * pi * real y * of_int (s * (int x - int ?v)) / real ?M) * psi (set_reg ws x b))"
    by (rule sum.swap)
  also have "\<dots> = (\<Sum>x<?M. (\<Sum>y<?M.
        cis (2 * pi * real y * of_int (s * (int x - int ?v)) / real ?M)) * psi (set_reg ws x b))"
    by (simp only: sum_distrib_right)
  also have "\<dots> = (\<Sum>x<?M. (if int ?M dvd s * (int x - int ?v) then of_nat ?M else 0) * psi (set_reg ws x b))"
    by (simp only: roots_of_unity_sum [OF M])
  also have "\<dots> = (\<Sum>x<?M. if x = ?v then of_nat ?M * psi (set_reg ws x b) else 0)"
  proof (rule sum.cong [OF refl])
    fix x assume "x \<in> {..<?M}"
    then have "x < ?M" by simp
    from dvd_diff_less_iff [OF this v assms(2)]
    show "(if int ?M dvd s * (int x - int ?v) then of_nat ?M else 0) * psi (set_reg ws x b)
        = (if x = ?v then of_nat ?M * psi (set_reg ws x b) else 0)"
      by simp
  qed
  also have "\<dots> = of_nat ?M * psi (set_reg ws ?v b)"
    using v by (simp add: sum.delta)
  finally show "fourier (- s) ws (fourier s ws psi) b = psi b"
    by (simp add: set_reg_reg_value)
qed

lemma vanishes_controls:
  assumes "\<forall>c\<in>set cs. c \<notin> set (gate_wires g)"
  shows "vanishes_off (\<lambda>b. list_all b cs) (apply_gate g (\<lambda>b'. if list_all b' cs then psi b' else 0))"
proof (rule apply_gate_vanishes)
  show "local_pred (gate_wires g) (\<lambda>b. list_all b cs)"
    using assms by (auto simp: local_pred_def list_all_iff)
  show "vanishes_off (\<lambda>b. list_all b cs) (\<lambda>b'. if list_all b' cs then psi b' else 0)"
    by (simp add: vanishes_off_def)
qed

lemma invert_apply_gate: "wf_gate g \<Longrightarrow> apply_gate (invert g) (apply_gate g psi) = psi"
proof (induction g arbitrary: psi)
  case (RZ theta w)
  have "cis (- (theta / 2)) * cis (theta / 2) = 1" "cis (theta / 2) * cis (- (theta / 2)) = 1"
    by (simp_all add: cis_mult)
  then show ?case by (auto simp: fun_eq_iff mult.assoc [symmetric])
next
  case (PauliX w)
  then show ?case by (simp add: fun_eq_iff)
next
  case (CNOT c t)
  then show ?case by (auto simp: fun_eq_iff)
next
  case (SWAP x y)
  have e: "(b(x := b y, y := b x))(x := (b(x := b y, y := b x)) y, y := (b(x := b y, y := b x)) x) = b" for b
    by (auto simp: fun_eq_iff)
  show ?case
    by (rule ext) (simp only: invert.simps apply_gate.simps e)
next
  case (QFT ws)
  then show ?case
    using fourier_inverse [of ws 1 psi]
    by (simp only: invert.simps QFT_fourier QFT_adj_fourier wf_gate.simps) simp
next
  case (QFT_adj ws)
  then show ?case
    using fourier_inverse [of ws "- 1" psi]
    by (simp only: invert.simps QFT_fourier QFT_adj_fourier wf_gate.simps) simp
next
  case (Ctrl g cs)
  let ?P = "\<lambda>b. list_all b cs"
  let ?in = "\<lambda>b'. if ?P b' then psi b' else 0"
  have wf: "wf_gate g" and dj: "\<forall>c\<in>set cs. c \<notin> set (gate_wires g)"
    using Ctrl.prems by simp_all
  have "vanishes_off ?P (apply_gate g ?in)" using dj by (rule vanishes_controls)
  then have p: "(\<lambda>b'. if ?P b' then apply_gate (Ctrl g cs) psi b' else 0) = apply_gate g ?in"
    by (auto simp: vanishes_off_def fun_eq_iff)
  show ?case
  proof (rule ext)
    fix b
    show "apply_gate (invert (Ctrl g cs)) (apply_gate (Ctrl g cs) psi) b = psi b"
    proof (cases "?P b")
      case True
      have "apply_gate (invert (Ctrl g cs)) phi b
          = apply_gate (invert g) (\<lambda>b'. if ?P b' then phi b' else 0) b" for phi
        using True by simp
      then have "apply_gate (invert (Ctrl g cs)) (apply_gate (Ctrl g cs) psi) b
          = apply_gate (invert g) (\<lambda>b'. if ?P b' then apply_gate (Ctrl g cs) psi b' else 0) b" .
      also have "\<dots> = ?in b" by (simp only: p Ctrl.IH [OF wf])
      finally show ?thesis using True by simp
    next
      case False
      then show ?thesis by simp
    qed
  qed
qed

lemma adjoint_run: "list_all wf_gate c \<Longrightarrow> run (adjoint c) (run c psi) = psi"
proof (induction c arbitrary: psi)
  case Nil
  then show ?case by (simp add: adjoint_def)
next
  case (Cons g c)
  have a: "adjoint (g # c) = adjoint c @ [invert g]" by (simp add: adjoint_def)
  from Cons show ?case
    by (simp add: a invert_apply_gate del: apply_gate.simps)
qed

lemma adjoint_yields:
  assumes "list_all wf_gate c" "phase_eq (run c (ket b)) (ket b')"
  shows "yields (run (adjoint c) (ket b')) b"
proof -
  from assms(2) obtain z where z: "cmod z = 1" "run c (ket b) = scale z (ket b')"
    by (auto simp: phase_eq_def)
  then have nz: "z \<noteq> 0" by auto
  have "ket b' = scale (inverse z) (run c (ket b))"
    using nz by (simp add: z(2))
  then have "run (adjoint c) (ket b') = scale (inverse z) (run (adjoint c) (run c (ket b)))"
    by (simp only: run_scale)
  then have "run (adjoint c) (ket b') = scale (inverse z) (ket b)"
    using assms(1) by (simp add: adjoint_run)
  moreover have "cmod (inverse z) = 1" using z(1) by (simp add: norm_inverse)
  ultimately have "phase_eq (run (adjoint c) (ket b')) (ket b)"
    unfolding phase_eq_def by blast
  then show ?thesis by (rule phase_eq_yields)
qed

subsection \<open>The built circuits are well formed\<close>

lemma wf_gate_invert [simp]: "wf_gate (invert g) = wf_gate g"
  by (induction g) simp_all

lemma wf_adjoint [simp]: "list_all wf_gate (adjoint c) = list_all wf_gate c"
  by (simp add: adjoint_def list_all_iff)

lemma wf_sum_k [simp]: "list_all wf_gate (sum_k k ws)"
  by (simp add: sum_k_def list_all_iff)

lemma wf_map_Ctrl:
  "list_all wf_gate c \<Longrightarrow> q \<notin> set (circuit_wires c) \<Longrightarrow> list_all wf_gate (map (\<lambda>g. Ctrl g [q]) c)"
  by (induction c) auto

lemma wf_adder_core:
  assumes "distinct ws" "ws \<noteq> []" "aux \<notin> set ws"
  shows "list_all wf_gate (adder_core k N ws aux)"
proof -
  have "ws ! 0 \<noteq> aux" using assms(2,3) by (metis nth_mem length_greater_0_conv)
  then show ?thesis using assms by (simp add: adder_core_def wf_map_Ctrl)
qed

lemma wf_ctrl_adders:
  assumes "distinct ext" "ext \<noteq> []" "aux \<notin> set ext"
    and "\<forall>i\<in>set is. wires_a ! i \<notin> insert aux (set ext)"
  shows "list_all wf_gate
     (concat (map (\<lambda>i. map (\<lambda>g. Ctrl g [wires_a ! i]) (adder_core (weight i mod N) N ext aux)) is))"
  using assms(4)
proof (induction "is")
  case Nil
  then show ?case by simp
next
  case (Cons i "is")
  have "wires_a ! i \<notin> set (circuit_wires (adder_core (weight i mod N) N ext aux))"
    using Cons.prems assms(2) by (simp add: set_circuit_wires_adder_core)
  then have "list_all wf_gate (map (\<lambda>g. Ctrl g [wires_a ! i]) (adder_core (weight i mod N) N ext aux))"
    using wf_adder_core [OF assms(1-3)] by (intro wf_map_Ctrl)
  with Cons show ?case by simp
qed

lemma wf_weighted_sum_circuit:
  assumes "distinct (s # wires_b)" "aux \<notin> set (s # wires_b)"
    and "set wires_a \<inter> insert aux (set (s # wires_b)) = {}"
  shows "list_all wf_gate ([QFT (s # wires_b)]
        @ concat (map (\<lambda>i. map (\<lambda>g. Ctrl g [wires_a ! i]) (adder_core (weight i mod N) N (s # wires_b) aux))
            [0..<length wires_a])
        @ [QFT_adj (s # wires_b)])"
proof -
  have "\<forall>i\<in>set [0..<length wires_a]. wires_a ! i \<notin> insert aux (set (s # wires_b))"
    using assms(3) by (rule disjoint_nth)
  from wf_ctrl_adders [OF assms(1) _ assms(2) this, of weight N] assms(1)
  show ?thesis by simp
qed

section \<open>What the circuits compute\<close>

text \<open>
  Claim C1, amended. For every \<open>N \<ge> 2\<close>, every \<open>k\<close> with \<open>0 \<le> k < N\<close> and every basis input
  whose register holds \<open>a < N\<close>, on a register of \<open>n\<close> wires with \<open>N \<le> 2 ^ (n - 1)\<close> (one
  spare wire on top) and with the overflow ancilla at 0, executing the circuit of
  \<open>add_in_k_N\<close> yields the basis state whose register holds \<open>(a + k) mod N\<close>; the ancilla is
  0 again and no other wire has changed.
\<close>

theorem add_in_k_N_correct:
  assumes "distinct wires_a" "wires_aux \<noteq> []" "wires_aux ! 0 \<notin> set wires_a"
    and "2 \<le> N" "N \<le> 2 ^ (length wires_a - 1)" "0 \<le> k" "k < N"
    and "int (reg_value wires_a b) < N" "\<not> b (wires_aux ! 0)"
  shows "\<exists>gs b'. add_in_k_N k N wires_a wires_aux True = Inr gs
      \<and> yields (run gs (ket b)) b'
      \<and> int (reg_value wires_a b') = (int (reg_value wires_a b) + k) mod N
      \<and> \<not> b' (wires_aux ! 0)
      \<and> (\<forall>w. w \<notin> set wires_a \<longrightarrow> b' w = b w)"
proof -
  let ?aux = "wires_aux ! 0"
  let ?n = "length wires_a"
  let ?a = "int (reg_value wires_a b)"
  let ?r = "(?a + k) mod N"
  let ?b' = "set_reg wires_a (nat ?r) b"
  have ne: "wires_a \<noteq> []" using assms(4,5) by auto
  then have n: "0 < ?n" by simp
  have g: "add_in_k_N k N wires_a wires_aux True
      = Inr ([QFT wires_a] @ adder_core k N wires_a ?aux @ [QFT_adj wires_a])"
    using ne assms(2,3) by (simp add: add_in_k_N_Inr)
  have ar: "adder_v2 k N ?n ?a False = ?r \<and> adder_c2 k N ?n ?a False = False"
    using assms(5) n _ assms(8,6,7) by (rule adder_in_range) simp
  have "b(?aux := False) = b" using assms(9) by (auto simp: fun_eq_iff)
  with add_in_k_N_standard [OF assms(1) ne assms(3), of k N b] ar assms(9)
  have "phase_eq (run ([QFT wires_a] @ adder_core k N wires_a ?aux @ [QFT_adj wires_a]) (ket b)) (ket ?b')"
    by simp
  then have y: "yields (run ([QFT wires_a] @ adder_core k N wires_a ?aux @ [QFT_adj wires_a]) (ket b)) ?b'"
    by (rule phase_eq_yields)
  have r0: "0 \<le> ?r" "?r < N" using assms(4) by simp_all
  have "?r < 2 ^ ?n"
  proof -
    have "(2::int) ^ (?n - 1) \<le> 2 ^ ?n" by (rule power_increasing) simp_all
    with r0(2) assms(5) show ?thesis by linarith
  qed
  then have "nat ?r < 2 ^ ?n" using r0(1) by (simp add: nat_less_iff)
  then have v: "int (reg_value wires_a ?b') = ?r"
    using assms(1) r0(1) by (simp add: reg_value_set_reg)
  have o: "\<not> ?b' ?aux" "\<forall>w. w \<notin> set wires_a \<longrightarrow> ?b' w = b w"
    using assms(3,9) by simp_all
  show ?thesis
    using g y v o by (intro exI [of _ "[QFT wires_a] @ adder_core k N wires_a ?aux @ [QFT_adj wires_a]"] exI [of _ ?b']) simp
qed

theorem add_in_k_N_correct_witness:
  "\<exists>gs b'. add_in_k_N 3 5 [0, 1, 2, 3] [4] True = Inr gs
      \<and> yields (run gs (ket (\<lambda>w. w = 1))) b'
      \<and> int (reg_value [0, 1, 2, 3] b') = (int (reg_value [0, 1, 2, 3] (\<lambda>w. w = 1)) + 3) mod 5
      \<and> \<not> b' ([4] ! 0)
      \<and> (\<forall>w. w \<notin> set [0, 1, 2, 3] \<longrightarrow> b' w = (w = 1))"
  by (rule add_in_k_N_correct) (simp_all add: reg_value_Cons)

text \<open>As stated (any register that can hold the values below \<open>N\<close>) the claim fails: on
  three wires with \<open>N = 5\<close>, adding 0 to 0 leaves 3 in the register and 1 in the ancilla.\<close>

theorem add_in_k_N_narrow_register_counterexample:
  "\<exists>gs. add_in_k_N 0 5 [1, 2, 3] [4] True = Inr gs
     \<and> int (reg_value [1, 2, 3] (\<lambda>w. False)) = 0
     \<and> yields (run gs (ket (\<lambda>w. False))) (set_reg [1, 2, 3] 3 ((\<lambda>w. False)(4 := True)))
     \<and> \<not> yields (run gs (ket (\<lambda>w. False))) (set_reg [1, 2, 3] (nat ((0 + 0) mod 5)) (\<lambda>w. False))"
proof -
  let ?gs = "[QFT [1, 2, 3]] @ adder_core 0 5 [1, 2, 3] 4 @ [QFT_adj [1, 2, 3]]"
  let ?b = "\<lambda>w::nat. False"
  have g: "add_in_k_N 0 5 [1, 2, 3] [4] True = Inr ?gs"
    by (simp add: add_in_k_N_Inr)
  have r: "int (reg_value [1, 2, 3] ?b) = 0" by (simp add: reg_value_Cons)
  have l: "length [1, 2, 3::nat] = 3" by simp
  have v: "nat (adder_v2 0 5 3 0 False) = 3" "adder_c2 0 5 3 0 False = True"
    by (simp_all add: adder_v2_def adder_c2_def adder_v3_def adder_c1_def adder_v1_def msb_def)
  have "phase_eq (run ?gs (ket ?b))
     (ket (set_reg [1, 2, 3] (nat (adder_v2 0 5 (length [1, 2, 3::nat]) (int (reg_value [1, 2, 3] ?b)) False))
        (?b(4 := adder_c2 0 5 (length [1, 2, 3::nat]) (int (reg_value [1, 2, 3] ?b)) False))))"
    using add_in_k_N_standard [of "[1, 2, 3]" 4 0 5 ?b] by simp
  then have "phase_eq (run ?gs (ket ?b)) (ket (set_reg [1, 2, 3] 3 (?b(4 := True))))"
    unfolding l r v .
  then have y: "yields (run ?gs (ket ?b)) (set_reg [1, 2, 3] 3 (?b(4 := True)))"
    by (rule phase_eq_yields)
  have "set_reg [1, 2, 3] 3 (?b(4 := True)) \<noteq> set_reg [1, 2, 3] (nat ((0 + 0) mod 5)) ?b"
    by (auto simp: fun_eq_iff intro!: exI [of _ 4])
  with y have "\<not> yields (run ?gs (ket ?b)) (set_reg [1, 2, 3] (nat ((0 + 0) mod 5)) ?b)"
    using yields_unique by blast
  with g r y show ?thesis by (intro exI [of _ ?gs]) simp
qed

text \<open>
  Claim C3. For every \<open>N \<ge> 2\<close> and all \<open>a\<close>, \<open>b\<close> with \<open>b < N\<close> (and registers that can hold
  the values below \<open>N\<close>, both ancillas at 0), the circuit of \<open>add_in_N\<close> maps the basis
  state \<open>(a, b)\<close> to \<open>(a, (a + b) mod N)\<close>, every wire outside \<open>wires_b\<close> unchanged, and its
  adjoint maps that state back to \<open>(a, b)\<close>.
\<close>

theorem add_in_N_correct:
  assumes "distinct (s # wires_b)" "aux2 \<noteq> []" "aux2 ! 0 \<notin> set (s # wires_b)"
    and "set wires_a \<inter> insert (aux2 ! 0) (set (s # wires_b)) = {}"
    and "2 \<le> N" "N \<le> 2 ^ length wires_b"
    and "int (reg_value wires_b b) < N" "\<not> b s" "\<not> b (aux2 ! 0)"
  shows "\<exists>gs b'. add_in_N N wires_a wires_b [s] aux2 = Inr gs
     \<and> yields (run gs (ket b)) b'
     \<and> int (reg_value wires_b b') = (int (reg_value wires_a b) + int (reg_value wires_b b)) mod N
     \<and> (\<forall>w. w \<notin> set wires_b \<longrightarrow> b' w = b w)
     \<and> yields (run (adjoint gs) (ket b')) b"
proof -
  let ?aux = "aux2 ! 0"
  let ?w = "\<lambda>i::nat. (2::int) ^ (length wires_a - 1 - i)"
  let ?gs = "[QFT (s # wires_b)]
        @ concat (map (\<lambda>i. map (\<lambda>g. Ctrl g [wires_a ! i]) (adder_core (?w i mod N) N (s # wires_b) ?aux))
            [0..<length wires_a])
        @ [QFT_adj (s # wires_b)]"
  let ?r = "(int (reg_value wires_a b) + int (reg_value wires_b b)) mod N"
  let ?b' = "set_reg wires_b (nat ?r) b"
  have N: "N \<noteq> 0" "0 < N" using assms(5) by simp_all
  have g: "add_in_N N wires_a wires_b [s] aux2 = Inr ?gs"
    using add_in_N_Inr [of N "[s]" wires_b aux2 wires_a] N(1) assms(2-4) by simp
  have sm: "(\<Sum>i\<leftarrow>[0..<length wires_a]. if b (wires_a ! i) then ?w i else 0) = int (reg_value wires_a b)"
    by (simp only: reg_value_sum_list)
  have p: "phase_eq (run ?gs (ket b)) (ket ?b')"
    using weighted_sum_circuit [OF assms(1,3,4) N(2) assms(6-9), of ?w]
    by (simp only: sm add.commute)
  then have y: "yields (run ?gs (ket b)) ?b'" by (rule phase_eq_yields)
  have wf: "list_all wf_gate ?gs" using assms(1,3,4) by (rule wf_weighted_sum_circuit)
  have bk: "yields (run (adjoint ?gs) (ket ?b')) b" using wf p by (rule adjoint_yields)
  have r: "0 \<le> ?r" "?r < N" using N(2) by simp_all
  then have "nat ?r < 2 ^ length wires_b" using assms(6) by (simp add: nat_less_iff)
  then have v: "int (reg_value wires_b ?b') = ?r"
    using assms(1) r(1) by (simp add: reg_value_set_reg)
  have o: "\<forall>w. w \<notin> set wires_b \<longrightarrow> ?b' w = b w" by simp
  show ?thesis
    using g y v o bk by (intro exI [of _ ?gs] exI [of _ ?b']) simp
qed

theorem add_in_N_correct_witness:
  "\<exists>gs b'. add_in_N 5 [0, 1, 2] [3, 4, 5] [6] [7] = Inr gs
     \<and> yields (run gs (ket (\<lambda>w. w = 2 \<or> w = 4 \<or> w = 5))) b'
     \<and> int (reg_value [3, 4, 5] b')
         = (int (reg_value [0, 1, 2] (\<lambda>w. w = 2 \<or> w = 4 \<or> w = 5))
            + int (reg_value [3, 4, 5] (\<lambda>w. w = 2 \<or> w = 4 \<or> w = 5))) mod 5
     \<and> (\<forall>w. w \<notin> set [3, 4, 5] \<longrightarrow> b' w = (w = 2 \<or> w = 4 \<or> w = 5))
     \<and> yields (run (adjoint gs) (ket b')) (\<lambda>w. w = 2 \<or> w = 4 \<or> w = 5)"
  by (rule add_in_N_correct) (simp_all add: reg_value_Cons)

subsection \<open>Swapping two registers\<close>

lemma map_nth_map2:
  "length xs = length ys \<Longrightarrow> map (\<lambda>i. f (xs ! i) (ys ! i)) [0..<length xs] = map2 f xs ys"
  by (rule nth_equalityI) simp_all

lemma run_swaps: "run (map2 SWAP xs ys) (ket b) = ket (swap_bits xs ys b)"
proof (induction xs arbitrary: ys b)
  case Nil
  show ?case by simp
next
  case (Cons x xs)
  show ?case
  proof (cases ys)
    case Nil
    then show ?thesis by simp
  next
    case (Cons y ys')
    have "run (map2 SWAP (x # xs) (y # ys')) (ket b)
        = run (map2 SWAP xs ys') (apply_gate (SWAP x y) (ket b))"
      by (simp del: apply_gate.simps)
    also have "\<dots> = run (map2 SWAP xs ys') (ket (b(x := b y, y := b x)))"
      by (simp only: SWAP_ket)
    also have "\<dots> = ket (swap_bits xs ys' (b(x := b y, y := b x)))"
      by (rule Cons.IH)
    also have "\<dots> = ket (swap_bits (x # xs) (y # ys') b)"
      by (simp only: swap_bits.simps)
    finally show ?thesis unfolding Cons .
  qed
qed

lemma swap_bits_other:
  "w \<notin> set xs \<Longrightarrow> w \<notin> set ys \<Longrightarrow> swap_bits xs ys b w = b w"
proof (induction xs arbitrary: ys b)
  case Nil
  show ?case by simp
next
  case (Cons x xs)
  show ?case
  proof (cases ys)
    case Nil
    then show ?thesis by simp
  next
    case (Cons y ys')
    have w: "w \<notin> set xs" "w \<notin> set ys'" "w \<noteq> x" "w \<noteq> y"
      using Cons.prems Cons by auto
    have "swap_bits (x # xs) (y # ys') b w = swap_bits xs ys' (b(x := b y, y := b x)) w"
      by (simp only: swap_bits.simps)
    also have "\<dots> = (b(x := b y, y := b x)) w"
      using w(1,2) by (rule Cons.IH)
    also have "\<dots> = b w" using w(3,4) by simp
    finally show ?thesis unfolding Cons .
  qed
qed

lemma swap_bits_reg_value:
  "length xs = length ys \<Longrightarrow> distinct (xs @ ys) \<Longrightarrow>
   reg_value xs (swap_bits xs ys b) = reg_value ys b \<and> reg_value ys (swap_bits xs ys b) = reg_value xs b"
proof (induction xs ys arbitrary: b rule: list_induct2)
  case Nil
  then show ?case by simp
next
  case (Cons x xs y ys)
  let ?b' = "b(x := b y, y := b x)"
  let ?B = "swap_bits xs ys ?b'"
  have d: "distinct (xs @ ys)" "x \<notin> set xs" "x \<notin> set ys" "y \<notin> set xs" "y \<notin> set ys" "x \<noteq> y"
    using Cons.prems by auto
  have ih: "reg_value xs ?B = reg_value ys ?b'" "reg_value ys ?B = reg_value xs ?b'"
    using Cons.IH [OF d(1), of ?b'] by blast+
  have "?B x = ?b' x" using d(2,3) by (rule swap_bits_other)
  then have x: "?B x = b y" using d(6) by simp
  have "?B y = ?b' y" using d(4,5) by (rule swap_bits_other)
  then have y: "?B y = b x" by simp
  have r: "reg_value ys ?b' = reg_value ys b" "reg_value xs ?b' = reg_value xs b"
    using d by simp_all
  have B: "swap_bits (x # xs) (y # ys) b = ?B" by (simp only: swap_bits.simps)
  show ?case
    unfolding B reg_value_Cons ih r x y using Cons.hyps by simp
qed

lemma set_reg_zero: "w \<in> set ws \<Longrightarrow> \<not> set_reg ws 0 b w"
  by (induction ws) auto

lemma reg_value_zero: "\<forall>w\<in>set ws. \<not> b w \<Longrightarrow> reg_value ws b = 0"
  by (induction ws) (simp_all add: reg_value_Cons)

lemma reg_value_set_reg_disjoint:
  assumes "set ws \<inter> set vs = {}"
  shows "reg_value ws (set_reg vs x b) = reg_value ws b"
proof (rule reg_value_cong)
  fix w assume "w \<in> set ws"
  then have "w \<notin> set vs" using assms by auto
  then show "set_reg vs x b w = b w" by simp
qed

lemma bits_eqI:
  assumes "same_off ws b b'" "reg_value ws b' = reg_value ws b"
  shows "b' = b"
proof -
  have "b' = set_reg ws (reg_value ws b') b'" by (simp only: set_reg_reg_value)
  also have "\<dots> = set_reg ws (reg_value ws b) b" using assms by (simp add: set_reg_same_off)
  also have "\<dots> = b" by (rule set_reg_reg_value)
  finally show ?thesis .
qed

subsection \<open>The constant multipliers\<close>

lemma mult_out_gates_sem:
  assumes "distinct (s # wires_b)" "aux \<notin> set (s # wires_b)"
    and "set wires_a \<inter> insert aux (set (s # wires_b)) = {}"
    and "0 < N" "N \<le> 2 ^ length wires_b"
    and "int (reg_value wires_b b) < N" "\<not> b s" "\<not> b aux"
  shows "phase_eq
     (run (weighted_sum_gates (\<lambda>i. k * 2 ^ (length wires_a - 1 - i)) N wires_a (s # wires_b) aux) (ket b))
     (ket (set_reg wires_b (nat ((int (reg_value wires_b b) + k * int (reg_value wires_a b)) mod N)) b))"
  using weighted_sum_circuit [OF assms, of "\<lambda>i. k * 2 ^ (length wires_a - 1 - i)"]
  by (simp only: weighted_sum_gates_def reg_value_sum_list_scaled [symmetric])

lemma uncompute_zero:
  assumes "inv_k * k mod N = (1::int)"
  shows "(a + (N - inv_k) * (k * a mod N)) mod N = 0"
proof -
  have "(a + (N - inv_k) * (k * a mod N)) mod N = (a + (N - inv_k) * (k * a)) mod N"
    by (metis mod_add_right_eq mod_mult_right_eq)
  also have "a + (N - inv_k) * (k * a) = a - inv_k * k * a + N * (k * a)"
    by (simp add: algebra_simps)
  also have "(a - inv_k * k * a + N * (k * a)) mod N = (a - inv_k * k * a) mod N"
    by simp
  also have "\<dots> = (a - inv_k * k mod N * a) mod N"
    by (metis mod_diff_right_eq mod_mult_left_eq)
  also have "\<dots> = 0" using assms by simp
  finally show ?thesis .
qed

lemma mult_in_steps_sem:
  assumes "distinct wires_a" "distinct (s # wires_support)" "aux \<notin> set (s # wires_support)"
    and "set wires_a \<inter> insert aux (set (s # wires_support)) = {}"
    and "length wires_a = length wires_support"
    and "0 < N" "N \<le> 2 ^ length wires_a" "inv_k * k mod N = 1"
    and "int (reg_value wires_a b) < N" "\<forall>w\<in>set wires_support. \<not> b w" "\<not> b s" "\<not> b aux"
  shows "phase_eq
       (run (weighted_sum_gates (\<lambda>i. k * 2 ^ (length wires_a - 1 - i)) N wires_a (s # wires_support) aux) (ket b))
       (ket (set_reg wires_support (nat (k * int (reg_value wires_a b) mod N)) b))"
    and "reg_value wires_a (set_reg wires_support (nat (k * int (reg_value wires_a b) mod N)) b)
       = reg_value wires_a b"
    and "int (reg_value wires_support (set_reg wires_support (nat (k * int (reg_value wires_a b) mod N)) b))
       = k * int (reg_value wires_a b) mod N"
    and "run (map2 SWAP wires_a wires_support)
          (ket (set_reg wires_support (nat (k * int (reg_value wires_a b) mod N)) b))
       = ket (swap_bits wires_a wires_support
          (set_reg wires_support (nat (k * int (reg_value wires_a b) mod N)) b))"
    and "int (reg_value wires_a (swap_bits wires_a wires_support
          (set_reg wires_support (nat (k * int (reg_value wires_a b) mod N)) b)))
       = k * int (reg_value wires_a b) mod N"
    and "reg_value wires_support (swap_bits wires_a wires_support
          (set_reg wires_support (nat (k * int (reg_value wires_a b) mod N)) b))
       = reg_value wires_a b"
    and "phase_eq
       (run (weighted_sum_gates (\<lambda>i. (N - inv_k) * 2 ^ (length wires_a - 1 - i)) N wires_a (s # wires_support) aux)
          (ket (swap_bits wires_a wires_support
            (set_reg wires_support (nat (k * int (reg_value wires_a b) mod N)) b))))
       (ket (set_reg wires_a (nat (k * int (reg_value wires_a b) mod N)) b))"
proof -
  let ?a = "int (reg_value wires_a b)"
  let ?y = "k * ?a mod N"
  let ?b1 = "set_reg wires_support (nat ?y) b"
  let ?b2 = "swap_bits wires_a wires_support ?b1"
  let ?b3 = "set_reg wires_support 0 ?b2"
  have dj: "set wires_a \<inter> set wires_support = {}" "s \<notin> set wires_a" "aux \<notin> set wires_a"
    "s \<notin> set wires_support" "aux \<notin> set wires_support" "aux \<noteq> s"
    using assms(2,3,4) by auto
  have Nb: "N \<le> 2 ^ length wires_support" using assms(5,7) by simp
  have z: "reg_value wires_support b = 0" using assms(10) by (rule reg_value_zero)
  have y: "0 \<le> ?y" "?y < N" using assms(6) by simp_all
  then have ylt: "nat ?y < 2 ^ length wires_support" using Nb by (simp add: nat_less_iff)
  have s1: "phase_eq
     (run (weighted_sum_gates (\<lambda>i. k * 2 ^ (length wires_a - 1 - i)) N wires_a (s # wires_support) aux) (ket b))
     (ket ?b1)"
    using mult_out_gates_sem [OF assms(2,3,4,6) Nb _ assms(11,12), of k] assms(6) by (simp add: z)
  have s2: "phase_eq (run (map2 SWAP wires_a wires_support) (ket ?b1)) (ket ?b2)"
    by (simp add: run_swaps)
  have da: "distinct (wires_a @ wires_support)" using assms(1,2) dj(1) by simp
  have ra1: "reg_value wires_a ?b1 = reg_value wires_a b"
    using dj(1) by (rule reg_value_set_reg_disjoint)
  have rs1: "reg_value wires_support ?b1 = nat ?y"
    using assms(2) ylt by (simp add: reg_value_set_reg)
  have sw: "reg_value wires_a ?b2 = nat ?y" "reg_value wires_support ?b2 = reg_value wires_a b"
    using swap_bits_reg_value [OF assms(5) da, of ?b1] ra1 rs1 by simp_all
  have o2: "\<not> ?b2 s" "\<not> ?b2 aux"
    using dj assms(11,12) by (simp_all add: swap_bits_other)
  have zero: "(int (reg_value wires_support ?b2) + (N - inv_k) * int (reg_value wires_a ?b2)) mod N = 0"
    using y(1) uncompute_zero [OF assms(8), of ?a] by (simp add: sw)
  have s3: "phase_eq
     (run (weighted_sum_gates (\<lambda>i. (N - inv_k) * 2 ^ (length wires_a - 1 - i)) N wires_a (s # wires_support) aux)
        (ket ?b2))
     (ket ?b3)"
  proof -
    have pre: "int (reg_value wires_support ?b2) < N" using assms(9) by (simp add: sw(2))
    from mult_out_gates_sem [OF assms(2,3,4,6) Nb pre o2, of "N - inv_k"]
    show ?thesis unfolding zero by simp
  qed
  have "?b3 = set_reg wires_a (nat ?y) b"
  proof (rule bits_eqI [symmetric])
    show "same_off wires_a ?b3 (set_reg wires_a (nat ?y) b)"
      unfolding same_off_def
    proof (intro allI impI)
      fix w assume w: "w \<notin> set wires_a"
      show "set_reg wires_a (nat ?y) b w = ?b3 w"
      proof (cases "w \<in> set wires_support")
        case True
        then show ?thesis using w assms(10) by (simp add: set_reg_zero)
      next
        case False
        then show ?thesis using w by (simp add: swap_bits_other)
      qed
    qed
    have "nat ?y < 2 ^ length wires_a" using ylt assms(5) by simp
    then have "reg_value wires_a (set_reg wires_a (nat ?y) b) = nat ?y"
      using assms(1) by (simp add: reg_value_set_reg)
    moreover have "reg_value wires_a ?b3 = reg_value wires_a ?b2"
      using dj(1) by (rule reg_value_set_reg_disjoint)
    ultimately show "reg_value wires_a (set_reg wires_a (nat ?y) b) = reg_value wires_a ?b3"
      using sw(1) by simp
  qed
  with s3 have s3': "phase_eq
     (run (weighted_sum_gates (\<lambda>i. (N - inv_k) * 2 ^ (length wires_a - 1 - i)) N wires_a (s # wires_support) aux)
        (ket ?b2))
     (ket (set_reg wires_a (nat ?y) b))"
    by simp
  show "phase_eq
       (run (weighted_sum_gates (\<lambda>i. k * 2 ^ (length wires_a - 1 - i)) N wires_a (s # wires_support) aux) (ket b))
       (ket ?b1)"
    by (rule s1)
  show "reg_value wires_a ?b1 = reg_value wires_a b" by (rule ra1)
  show "int (reg_value wires_support ?b1) = ?y" using rs1 y(1) by simp
  show "run (map2 SWAP wires_a wires_support) (ket ?b1) = ket ?b2" by (rule run_swaps)
  show "int (reg_value wires_a ?b2) = ?y" using sw(1) y(1) by simp
  show "reg_value wires_support ?b2 = reg_value wires_a b" by (rule sw(2))
  show "phase_eq
       (run (weighted_sum_gates (\<lambda>i. (N - inv_k) * 2 ^ (length wires_a - 1 - i)) N wires_a (s # wires_support) aux)
          (ket ?b2))
       (ket (set_reg wires_a (nat ?y) b))"
    by (rule s3')
qed

lemma mult_in_gates_sem:
  assumes "distinct wires_a" "distinct (s # wires_support)" "aux \<notin> set (s # wires_support)"
    and "set wires_a \<inter> insert aux (set (s # wires_support)) = {}"
    and "length wires_a = length wires_support"
    and "0 < N" "N \<le> 2 ^ length wires_a" "inv_k * k mod N = 1"
    and "int (reg_value wires_a b) < N" "\<forall>w\<in>set wires_support. \<not> b w" "\<not> b s" "\<not> b aux"
  shows "phase_eq
     (run (weighted_sum_gates (\<lambda>i. k * 2 ^ (length wires_a - 1 - i)) N wires_a (s # wires_support) aux
           @ map2 SWAP wires_a wires_support
           @ weighted_sum_gates (\<lambda>i. (N - inv_k) * 2 ^ (length wires_a - 1 - i)) N wires_a (s # wires_support) aux)
        (ket b))
     (ket (set_reg wires_a (nat (k * int (reg_value wires_a b) mod N)) b))"
proof -
  note st = mult_in_steps_sem [OF assms]
  have s2: "phase_eq (run (map2 SWAP wires_a wires_support)
          (ket (set_reg wires_support (nat (k * int (reg_value wires_a b) mod N)) b)))
       (ket (swap_bits wires_a wires_support
          (set_reg wires_support (nat (k * int (reg_value wires_a b) mod N)) b)))"
    by (simp only: st(4) phase_eq_refl)
  show ?thesis
    unfolding run_append
    by (intro phase_eq_step [OF _ st(7)] phase_eq_step [OF _ s2] st(1))
qed

lemma mult_out_k_N_gates:
  assumes "N \<noteq> 0" "2 \<le> length wires_aux" "wires_aux ! 1 \<notin> set (wires_aux ! 0 # wires_b)"
    and "set wires_a \<inter> insert (wires_aux ! 1) (set (wires_aux ! 0 # wires_b)) = {}"
  shows "mult_out_k_N k N wires_a wires_b wires_aux =
     Inr ([], weighted_sum_gates (\<lambda>i. k * 2 ^ (length wires_a - 1 - i)) N wires_a
                 (wires_aux ! 0 # wires_b) (wires_aux ! 1))"
  using mult_out_k_N_Inr [OF assms] by (simp add: weighted_sum_gates_def)

lemma mult_in_k_N_gates:
  assumes "2 \<le> N" "2 \<le> length wires_aux" "length wires_a = length wires_support"
    and "wires_aux ! 1 \<notin> set (wires_aux ! 0 # wires_support)"
    and "set wires_a \<inter> insert (wires_aux ! 1) (set (wires_aux ! 0 # wires_support)) = {}"
    and "k ^ nat (N - 1) mod N = 1"
  shows "mult_in_k_N k N wires_a wires_support wires_aux =
     Inr ([], weighted_sum_gates (\<lambda>i. k * 2 ^ (length wires_a - 1 - i)) N wires_a
                 (wires_aux ! 0 # wires_support) (wires_aux ! 1)
              @ map2 SWAP wires_a wires_support
              @ weighted_sum_gates (\<lambda>i. (N - k ^ nat (N - 2) mod N) * 2 ^ (length wires_a - 1 - i)) N wires_a
                 (wires_aux ! 0 # wires_support) (wires_aux ! 1))"
proof -
  have N: "N \<noteq> 0" using assms(1) by simp
  have sw: "map (\<lambda>i. SWAP (wires_a ! i) (wires_support ! i)) [0..<length wires_a] = map2 SWAP wires_a wires_support"
    using assms(3) by (rule map_nth_map2)
  show ?thesis
    using three_steps_of_mult_in_k_N [OF assms(1,2,3,6)
        mult_out_k_N_gates [OF N assms(2,4,5)] mult_out_k_N_gates [OF N assms(2,4,5)]]
    by (simp only: sw)
qed

lemma fermat_inverse_test:
  assumes "2 \<le> (N::int)" "k ^ m mod N = 1"
  shows "(k ^ j mod N) ^ m mod N = 1"
proof -
  have "(k ^ j mod N) ^ m mod N = (k ^ j) ^ m mod N" by (simp add: power_mod)
  also have "(k ^ j) ^ m = (k ^ m) ^ j" by (simp add: power_mult [symmetric] mult.commute)
  also have "(k ^ m) ^ j mod N = (k ^ m mod N) ^ j mod N" by (simp add: power_mod)
  also have "\<dots> = 1" using assms by simp
  finally show ?thesis .
qed

text \<open>
  Claim C6, amended. When its checks pass, \<open>mult_in_k_N\<close> is exactly three steps: (1) the
  gates of \<open>mult_out_k_N k N\<close>, which leave \<open>(a, k * a mod N)\<close> in (input, support); (2) one
  \<open>SWAP\<close> per position of the input and support registers, which leaves
  \<open>(k * a mod N, a)\<close>; (3) the gates of \<open>mult_out_k_N\<close> itself, not of its adjoint, with the
  constant \<open>N - k ^ (N - 2) mod N\<close>, which bring the support register back to 0.
\<close>

theorem mult_in_k_N_three_steps:
  assumes "distinct wires_a" "distinct (wires_aux ! 0 # wires_support)"
    and "wires_aux ! 1 \<notin> set (wires_aux ! 0 # wires_support)"
    and "set wires_a \<inter> insert (wires_aux ! 1) (set (wires_aux ! 0 # wires_support)) = {}"
    and "2 \<le> length wires_aux" "length wires_a = length wires_support"
    and "2 \<le> N" "N \<le> 2 ^ length wires_a" "k ^ nat (N - 1) mod N = 1"
    and "int (reg_value wires_a b) < N" "\<forall>w\<in>set wires_support. \<not> b w"
    and "\<not> b (wires_aux ! 0)" "\<not> b (wires_aux ! 1)"
  shows "\<exists>step1 step3 b1 b2 b3.
       mult_out_k_N k N wires_a wires_support wires_aux = Inr ([], step1)
     \<and> mult_out_k_N (N - k ^ nat (N - 2) mod N) N wires_a wires_support wires_aux = Inr ([], step3)
     \<and> mult_in_k_N k N wires_a wires_support wires_aux =
         Inr ([], step1 @ map (\<lambda>i. SWAP (wires_a ! i) (wires_support ! i)) [0..<length wires_a] @ step3)
     \<and> yields (run step1 (ket b)) b1
     \<and> reg_value wires_a b1 = reg_value wires_a b
     \<and> int (reg_value wires_support b1) = k * int (reg_value wires_a b) mod N
     \<and> run (map (\<lambda>i. SWAP (wires_a ! i) (wires_support ! i)) [0..<length wires_a]) (ket b1) = ket b2
     \<and> int (reg_value wires_a b2) = k * int (reg_value wires_a b) mod N
     \<and> reg_value wires_support b2 = reg_value wires_a b
     \<and> yields (run step3 (ket b2)) b3
     \<and> int (reg_value wires_a b3) = k * int (reg_value wires_a b) mod N
     \<and> reg_value wires_support b3 = 0"
proof -
  let ?s = "wires_aux ! 0"
  let ?aux = "wires_aux ! 1"
  let ?inv = "k ^ nat (N - 2) mod N"
  let ?W = "\<lambda>c. weighted_sum_gates (\<lambda>i. c * 2 ^ (length wires_a - 1 - i)) N wires_a (?s # wires_support) ?aux"
  let ?sw = "map (\<lambda>i. SWAP (wires_a ! i) (wires_support ! i)) [0..<length wires_a]"
  let ?y = "k * int (reg_value wires_a b) mod N"
  let ?b1 = "set_reg wires_support (nat ?y) b"
  let ?b2 = "swap_bits wires_a wires_support ?b1"
  let ?b3 = "set_reg wires_a (nat ?y) b"
  have N: "N \<noteq> 0" "0 < N" using assms(7) by simp_all
  have t: "?inv * k mod N = 1" using assms(7,9) by (simp add: fermat_test)
  have sw: "?sw = map2 SWAP wires_a wires_support" using assms(6) by (rule map_nth_map2)
  have g1: "mult_out_k_N k N wires_a wires_support wires_aux = Inr ([], ?W k)"
    using N(1) assms(5,3,4) by (rule mult_out_k_N_gates)
  have g3: "mult_out_k_N (N - ?inv) N wires_a wires_support wires_aux = Inr ([], ?W (N - ?inv))"
    using N(1) assms(5,3,4) by (rule mult_out_k_N_gates)
  have g: "mult_in_k_N k N wires_a wires_support wires_aux = Inr ([], ?W k @ ?sw @ ?W (N - ?inv))"
    using assms(7,5,6,9) g1 g3 by (rule three_steps_of_mult_in_k_N)
  note st = mult_in_steps_sem [OF assms(1,2,3,4,6) N(2) assms(8) t assms(10,11,12,13)]
  have y1: "yields (run (?W k) (ket b)) ?b1" using st(1) by (rule phase_eq_yields)
  have r2: "run ?sw (ket ?b1) = ket ?b2" unfolding sw by (rule st(4))
  have y3: "yields (run (?W (N - ?inv)) (ket ?b2)) ?b3" using st(7) by (rule phase_eq_yields)
  have yr: "0 \<le> ?y" "?y < N" using N(2) by simp_all
  then have "nat ?y < 2 ^ length wires_a" using assms(8) by (simp add: nat_less_iff)
  then have ra3: "int (reg_value wires_a ?b3) = ?y"
    using assms(1) yr(1) by (simp add: reg_value_set_reg)
  have "set wires_support \<inter> set wires_a = {}" using assms(4) by auto
  then have "reg_value wires_support ?b3 = reg_value wires_support b"
    by (rule reg_value_set_reg_disjoint)
  then have rs3: "reg_value wires_support ?b3 = 0"
    using assms(11) by (simp add: reg_value_zero)
  show ?thesis
    using g1 g3 g y1 st(2) st(3) r2 st(5) st(6) y3 ra3 rs3
    by (intro exI [of _ "?W k"] exI [of _ "?W (N - ?inv)"] exI [of _ ?b1] exI [of _ ?b2] exI [of _ ?b3])
       (simp del: apply_gate.simps)
qed

theorem mult_in_k_N_three_steps_witness:
  "\<exists>step1 step3 b1 b2 b3.
       mult_out_k_N 3 5 [0, 1, 2] [3, 4, 5] [6, 7] = Inr ([], step1)
     \<and> mult_out_k_N (5 - 3 ^ nat (5 - 2) mod 5) 5 [0, 1, 2] [3, 4, 5] [6, 7] = Inr ([], step3)
     \<and> mult_in_k_N 3 5 [0, 1, 2] [3, 4, 5] [6, 7] =
         Inr ([], step1 @ map (\<lambda>i. SWAP ([0, 1, 2] ! i) ([3, 4, 5] ! i)) [0..<length [0, 1, 2::nat]] @ step3)
     \<and> yields (run step1 (ket (\<lambda>w. w = 2))) b1
     \<and> reg_value [0, 1, 2] b1 = reg_value [0, 1, 2] (\<lambda>w. w = 2)
     \<and> int (reg_value [3, 4, 5] b1) = 3 * int (reg_value [0, 1, 2] (\<lambda>w. w = 2)) mod 5
     \<and> run (map (\<lambda>i. SWAP ([0, 1, 2] ! i) ([3, 4, 5] ! i)) [0..<length [0, 1, 2::nat]]) (ket b1) = ket b2
     \<and> int (reg_value [0, 1, 2] b2) = 3 * int (reg_value [0, 1, 2] (\<lambda>w. w = 2)) mod 5
     \<and> reg_value [3, 4, 5] b2 = reg_value [0, 1, 2] (\<lambda>w. w = 2)
     \<and> yields (run step3 (ket b2)) b3
     \<and> int (reg_value [0, 1, 2] b3) = 3 * int (reg_value [0, 1, 2] (\<lambda>w. w = 2)) mod 5
     \<and> reg_value [3, 4, 5] b3 = 0"
  by (rule mult_in_k_N_three_steps) (simp_all add: reg_value_Cons)

text \<open>As stated (step 3 is the adjoint of the out-of-place multiplier) the claim fails.\<close>

theorem mult_in_k_N_step3_counterexample:
  "mult_in_k_N 2 3 [0] [1] [2, 3] \<noteq>
     Inr ([], gates_of (mult_out_k_N 2 3 [0] [1] [2, 3]) @ [SWAP 0 1]
              @ adjoint (gates_of (mult_out_k_N (3 - 2 ^ nat (3 - 2) mod 3) 3 [0] [1] [2, 3])))"
  by (simp add: mult_in_k_N_def pow3_def mult_out_k_N_def add_in_k_N_def sum_k_def adjoint_def
      add_controls_def upt_rec gates_of_def Let_def)




subsection \<open>The exponentiation loop\<close>

lemma circuit_wires_concat:
  "set (circuit_wires (concat cs)) = (\<Union>c\<in>set cs. set (circuit_wires c))"
  by (induction cs) auto

lemma circuit_wires_weighted_sum_gates:
  "ext \<noteq> [] \<Longrightarrow>
   set (circuit_wires (weighted_sum_gates weight N wires_a ext aux)) \<subseteq> set wires_a \<union> set ext \<union> {aux}"
  by (auto simp: weighted_sum_gates_def circuit_wires_concat set_circuit_wires_map_Ctrl
      set_circuit_wires_adder_core split: if_splits)

lemma circuit_wires_map2_SWAP:
  "set (circuit_wires (map2 SWAP xs ys)) \<subseteq> set xs \<union> set ys"
proof (induction xs arbitrary: ys)
  case Nil
  then show ?case by simp
next
  case (Cons x xs)
  then show ?case by (cases ys) auto
qed

lemma circuit_wires_mult_in_gates:
  "set (circuit_wires (mult_in_gates k N wires_a wires_support wires_aux))
     \<subseteq> set wires_a \<union> set wires_support \<union> {wires_aux ! 0, wires_aux ! 1}"
proof -
  have "set (circuit_wires (weighted_sum_gates w N wires_a (wires_aux ! 0 # wires_support) (wires_aux ! 1)))
      \<subseteq> set wires_a \<union> set wires_support \<union> {wires_aux ! 0, wires_aux ! 1}" for w
    using circuit_wires_weighted_sum_gates [of "wires_aux ! 0 # wires_support" w N wires_a "wires_aux ! 1"]
    by auto
  moreover have "set (circuit_wires (map2 SWAP wires_a wires_support))
      \<subseteq> set wires_a \<union> set wires_support \<union> {wires_aux ! 0, wires_aux ! 1}"
    using circuit_wires_map2_SWAP [of wires_a wires_support] by auto
  ultimately show ?thesis by (simp add: mult_in_gates_def)
qed

lemma power_test:
  assumes "2 \<le> (N::int)" "a ^ m mod N = 1"
  shows "(a ^ j) ^ m mod N = 1"
proof -
  have "(a ^ j) ^ m = (a ^ m) ^ j" by (simp add: power_mult [symmetric] mult.commute)
  also have "(a ^ m) ^ j mod N = (a ^ m mod N) ^ j mod N" by (simp add: power_mod)
  also have "\<dots> = 1" using assms by simp
  finally show ?thesis .
qed

lemma Exp_loop_Inr:
  assumes "2 \<le> N" "2 \<le> length wires_aux" "length wires_res = length wires_support"
    and "wires_aux ! 1 \<notin> set (wires_aux ! 0 # wires_support)"
    and "set wires_res \<inter> insert (wires_aux ! 1) (set (wires_aux ! 0 # wires_support)) = {}"
    and "a ^ nat (N - 1) mod N = 1"
    and "\<forall>i\<in>set is. wires_x ! i \<notin> set wires_res \<union> set wires_support \<union> {wires_aux ! 0, wires_aux ! 1}"
  shows "Exp_loop a N wires_x wires_res wires_support wires_aux is =
     Inr ([], concat (map (\<lambda>i. map (\<lambda>g. Ctrl g [wires_x ! i])
        (mult_in_gates (a ^ (2 ^ (length wires_x - i - 1))) N wires_res wires_support wires_aux)) is))"
  using assms(7)
proof (induction "is")
  case Nil
  then show ?case by simp
next
  case (Cons i "is")
  let ?v = "a ^ (2 ^ (length wires_x - Suc i))"
  let ?G = "mult_in_gates ?v N wires_res wires_support wires_aux"
  have "?v ^ nat (N - 1) mod N = 1" using assms(1,6) by (rule power_test)
  then have m: "mult_in_k_N ?v N wires_res wires_support wires_aux = Inr ([], ?G)"
    unfolding mult_in_gates_def using assms(1-5) by (intro mult_in_k_N_gates)
  have "set [wires_x ! i] \<inter> set (circuit_wires ?G) = {}"
    using Cons.prems circuit_wires_mult_in_gates [of ?v N wires_res wires_support wires_aux] by auto
  then have c: "controlled ?G [wires_x ! i] = Inr (map (\<lambda>g. Ctrl g [wires_x ! i]) ?G)"
    by (rule controlled_ok)
  from Cons have r: "Exp_loop a N wires_x wires_res wires_support wires_aux is =
     Inr ([], concat (map (\<lambda>i. map (\<lambda>g. Ctrl g [wires_x ! i])
        (mult_in_gates (a ^ (2 ^ (length wires_x - i - 1))) N wires_res wires_support wires_aux)) is))"
    by simp
  show ?case by (simp add: Let_def m c r)
qed

lemma Exp_loop_sem:
  assumes "distinct wires_res" "distinct (wires_aux ! 0 # wires_support)"
    and "wires_aux ! 1 \<notin> set (wires_aux ! 0 # wires_support)"
    and "set wires_res \<inter> insert (wires_aux ! 1) (set (wires_aux ! 0 # wires_support)) = {}"
    and "length wires_res = length wires_support"
    and "2 \<le> N" "N \<le> 2 ^ length wires_res" "a ^ nat (N - 1) mod N = 1"
    and "\<forall>w\<in>set wires_support. \<not> b w" "\<not> b (wires_aux ! 0)" "\<not> b (wires_aux ! 1)"
    and "\<forall>i\<in>set is. wires_x ! i \<notin> set wires_res \<union> set wires_support \<union> {wires_aux ! 0, wires_aux ! 1}"
    and "int (reg_value wires_res b) < N"
  shows "phase_eq
     (run (concat (map (\<lambda>i. map (\<lambda>g. Ctrl g [wires_x ! i])
        (mult_in_gates (a ^ (2 ^ (length wires_x - i - 1))) N wires_res wires_support wires_aux)) is))
       (ket b))
     (ket (set_reg wires_res
        (nat (int (reg_value wires_res b)
              * a ^ (\<Sum>i\<leftarrow>is. if b (wires_x ! i) then 2 ^ (length wires_x - i - 1) else 0) mod N)) b))"
  using assms(12,13)
proof (induction "is" rule: rev_induct)
  case Nil
  have "nat (int (reg_value wires_res b) mod N) = reg_value wires_res b"
    using Nil.prems(2) by simp
  then show ?case by (simp add: set_reg_reg_value)
next
  case (snoc i "is")
  let ?e = "\<lambda>js. (\<Sum>i\<leftarrow>js. if b (wires_x ! i) then 2 ^ (length wires_x - i - 1) else 0) :: nat"
  let ?r = "int (reg_value wires_res b)"
  let ?y = "?r * a ^ ?e is mod N"
  let ?b1 = "set_reg wires_res (nat ?y) b"
  let ?v = "a ^ (2 ^ (length wires_x - i - 1))"
  let ?G = "mult_in_gates ?v N wires_res wires_support wires_aux"
  let ?q = "wires_x ! i"
  let ?z = "?r * a ^ ?e (is @ [i]) mod N"
  have N: "0 < N" using assms(6) by simp
  have ctl: "\<forall>i\<in>set is. wires_x ! i \<notin> set wires_res \<union> set wires_support \<union> {wires_aux ! 0, wires_aux ! 1}"
    and q: "?q \<notin> set wires_res \<union> set wires_support \<union> {wires_aux ! 0, wires_aux ! 1}"
    using snoc.prems(1) by simp_all
  have front: "phase_eq
     (run (concat (map (\<lambda>i. map (\<lambda>g. Ctrl g [wires_x ! i])
        (mult_in_gates (a ^ (2 ^ (length wires_x - i - 1))) N wires_res wires_support wires_aux)) is))
       (ket b)) (ket ?b1)"
    using snoc.IH [OF ctl snoc.prems(2)] .
  have y: "0 \<le> ?y" "?y < N" using N by simp_all
  then have "nat ?y < 2 ^ length wires_res" using assms(7) by (simp add: nat_less_iff)
  then have rv: "int (reg_value wires_res ?b1) = ?y"
    using assms(1) y(1) by (simp add: reg_value_set_reg)
  have dj: "set wires_res \<inter> set wires_support = {}" "wires_aux ! 0 \<notin> set wires_res"
    "wires_aux ! 1 \<notin> set wires_res"
    using assms(4) by auto
  have sz: "\<forall>w\<in>set wires_support. \<not> ?b1 w"
  proof
    fix w assume w: "w \<in> set wires_support"
    then have "w \<notin> set wires_res" using dj(1) by auto
    then show "\<not> ?b1 w" using assms(9) w by auto
  qed
  have pre: "int (reg_value wires_res ?b1) < N" "\<not> ?b1 (wires_aux ! 0)" "\<not> ?b1 (wires_aux ! 1)"
    using rv y(2) dj assms(10,11) by simp_all
  have bq: "?b1 ?q = b ?q" using q by simp
  have d: "definite ?q (b ?q) (ket ?b1)" using definite_ket [of ?q ?b1] by (simp only: bq)
  have cw: "?q \<notin> set (circuit_wires ?G)"
    using q circuit_wires_mult_in_gates [of ?v N wires_res wires_support wires_aux] by auto
  have last: "phase_eq (run (map (\<lambda>g. Ctrl g [?q]) ?G) (ket ?b1)) (ket (set_reg wires_res (nat ?z) b))"
  proof (cases "b ?q")
    case True
    have t: "?v ^ nat (N - 1) mod N = 1" using assms(6,8) by (rule power_test)
    then have t': "?v ^ nat (N - 2) mod N * ?v mod N = 1" using assms(6) by (simp add: fermat_test)
    have "phase_eq (run ?G (ket ?b1))
        (ket (set_reg wires_res (nat (?v * int (reg_value wires_res ?b1) mod N)) ?b1))"
      unfolding mult_in_gates_def
      using assms(1,2,3,4,5) N assms(7) t' pre(1) sz pre(2,3) by (rule mult_in_gates_sem)
    moreover have "?v * int (reg_value wires_res ?b1) mod N = ?z"
    proof -
      have "?e (is @ [i]) = ?e is + 2 ^ (length wires_x - i - 1)" using True by simp
      then have "?r * a ^ ?e (is @ [i]) = ?v * (?r * a ^ ?e is)"
        by (simp add: power_add power_mult [symmetric] mult.commute mult.left_commute)
      then show ?thesis by (simp only: rv) (simp add: mod_simps)
    qed
    ultimately have "phase_eq (run ?G (ket ?b1)) (ket (set_reg wires_res (nat ?z) b))"
      by simp
    then show ?thesis unfolding run_Ctrl_definite [OF d cw] using True by simp
  next
    case False
    then have "?e (is @ [i]) = ?e is" by simp
    then have "set_reg wires_res (nat ?z) b = ?b1" by simp
    then show ?thesis unfolding run_Ctrl_definite [OF d cw] using False by simp
  qed
  show ?case
    unfolding map_append concat_append run_append
    using phase_eq_step [OF front] last by simp
qed

lemma reg_value_sum_list_nat:
  "reg_value ws b = (\<Sum>i\<leftarrow>[0..<length ws]. if b (ws ! i) then 2 ^ (length ws - i - 1) else 0)"
proof (induction ws)
  case Nil
  then show ?case by simp
next
  case (Cons w ws)
  have "[0..<Suc (length ws)] = 0 # [Suc 0..<Suc (length ws)]"
    by (rule upt_conv_Cons) simp
  then have "[0..<length (w # ws)] = 0 # map Suc [0..<length ws]"
    by (simp only: map_Suc_upt list.size) simp
  then have "(\<Sum>i\<leftarrow>[0..<length (w # ws)]. if b ((w # ws) ! i) then 2 ^ (length (w # ws) - i - 1) else 0)
      = (if b w then 2 ^ length ws else 0)
        + (\<Sum>i\<leftarrow>[0..<length ws]. if b (ws ! i) then 2 ^ (length ws - i - 1) else (0::nat))"
    by (simp add: comp_def cong: if_cong)
  with Cons show ?case by (simp add: reg_value_Cons)
qed

lemma reg_value_last_set:
  assumes "distinct ws" "ws \<noteq> []" "\<forall>w\<in>set ws. \<not> b w"
  shows "reg_value ws (b(last ws := True)) = 1"
proof -
  obtain vs w where ws: "ws = vs @ [w]" using assms(2) by (meson rev_exhaust)
  have w: "w \<notin> set vs" using assms(1) ws by simp
  have "\<forall>v\<in>set vs. \<not> b v" using assms(3) ws by simp
  then have "reg_value vs b = 0" by (rule reg_value_zero)
  then have "reg_value vs (b(w := True)) = 0" using w by simp
  then show ?thesis by (simp add: ws reg_value_snoc)
qed

lemma Exp_a_N_Inr:
  assumes "2 \<le> N" "2 \<le> length wires_aux" "length wires_res = length wires_support"
    and "wires_aux ! 1 \<notin> set (wires_aux ! 0 # wires_support)"
    and "set wires_res \<inter> insert (wires_aux ! 1) (set (wires_aux ! 0 # wires_support)) = {}"
    and "a ^ nat (N - 1) mod N = 1"
    and "set wires_x \<inter> (set wires_res \<union> set wires_support \<union> {wires_aux ! 0, wires_aux ! 1}) = {}"
    and "wires_res \<noteq> []"
  shows "Exp_a_N a N wires_x wires_res wires_support wires_aux =
     Inr ([], PauliX (last wires_res)
        # concat (map (\<lambda>i. map (\<lambda>g. Ctrl g [wires_x ! i])
            (mult_in_gates (a ^ (2 ^ (length wires_x - i - 1))) N wires_res wires_support wires_aux))
          [0..<length wires_x]))"
proof -
  have "\<forall>i\<in>set [0..<length wires_x].
      wires_x ! i \<notin> set wires_res \<union> set wires_support \<union> {wires_aux ! 0, wires_aux ! 1}"
    using assms(7) by (rule disjoint_nth)
  from Exp_loop_Inr [OF assms(1-6) this] assms(8) show ?thesis
    by (simp add: Exp_a_N_def last_conv_nth)
qed




end
